theory Spec2Isabelle
  imports Main "HOL-Library.Word" "HOL-Library.Signed_Division"
begin

section \<open>The weak-global-reference locker (JNIWeakGlobalRefLocker.cpp)\<close>

text \<open>
  The native method \<^verbatim>\<open>criticalNative(JNIEnv *env, jobject o, jlong enterTime, jlong sleepTime)\<close>
  takes the object out of the field \<^verbatim>\<open>obj\<close> of its receiver, holds it through weak global
  references only for \<^verbatim>\<open>enterTime / 1000\<close> seconds, and puts it back. Everything it does
  goes through the JNI environment, the C clock and the sleep helper of \<^verbatim>\<open>jni_tools.h\<close>;
  each of these calls is an operation on an explicit \<open>world\<close> and leaves an \<open>event\<close> in the
  world's trace, in program order.
\<close>

subsection \<open>Data\<close>

text \<open>
  A \<^verbatim>\<open>jlong\<close> is a signed 64-bit integer. \<^verbatim>\<open>time_t\<close> is declared by the platform's C
  library, not by this repository: its values are taken as mathematical integers (the
  subtraction \<^verbatim>\<open>current_time - start_time\<close> of two clock readings does not overflow a 64-bit
  \<^verbatim>\<open>time_t\<close>). Java references, classes, field identifiers and weak handles are natural
  numbers; the C value \<^verbatim>\<open>NULL\<close> is \<open>None\<close>.
\<close>

type_synonym jlong = "64 word"
type_synonym time_t = int
type_synonym jobject = "nat option"
type_synonym jclass = "nat option"
type_synonym jfieldID = "nat option"
type_synonym jweak = "nat option"

datatype event =
    is_ClassQuery: ClassQuery nat jclass
  | is_FieldQuery: FieldQuery nat string string jfieldID
  | is_SlotRead: SlotRead nat nat jobject
  | is_SlotWrite: SlotWrite nat nat jobject
  | is_WeakCreate: WeakCreate nat jweak
  | is_WeakDestroy: WeakDestroy jweak
  | is_Sleep: Sleep jlong
  | is_ClockRead: ClockRead time_t
  | is_Print: Print string

text \<open>
  The world: the file's static variable \<^verbatim>\<open>objFieldId\<close>, the Java heap as far as the
  routine sees it (the class of each object, the field table of each class, the value of
  each reference field), the weak global references that are alive, the clock in
  milliseconds, the number of sleeps so far, and the trace.
\<close>

record world =
  objFieldId :: jfieldID
  class_of :: "nat \<Rightarrow> jclass"
  field_id :: "nat \<Rightarrow> string \<Rightarrow> string \<Rightarrow> jfieldID"
  slots :: "nat \<Rightarrow> nat \<Rightarrow> jobject"
  weak_refs :: "(nat \<times> nat) list"
  handles :: nat
  clock_ms :: int
  sleeps :: nat
  trace :: "event list"

definition emit :: "event \<Rightarrow> world \<Rightarrow> world" where
  "emit e w = w\<lparr>trace := trace w @ [e]\<rparr>"

subsection \<open>The collaborators\<close>

text \<open>
  Modelled from the spec: \<^verbatim>\<open>JNIEnv::GetObjectClass\<close> (the JNI implementation is not among the
  sources). Section 6: the field-access collaborator, given a container instance, returns
  its runtime type; a failure returns null.
\<close>

definition GetObjectClass :: "nat \<Rightarrow> world \<Rightarrow> jclass \<times> world" where
  "GetObjectClass this w = (class_of w this, emit (ClassQuery this (class_of w this)) w)"

text \<open>
  Modelled from the spec: \<^verbatim>\<open>JNIEnv::GetFieldID\<close> (not among the sources). Section 6: given a
  type, a name and a signature, the collaborator returns a locator, or null on failure.
\<close>

definition GetFieldID :: "nat \<Rightarrow> string \<Rightarrow> string \<Rightarrow> world \<Rightarrow> jfieldID \<times> world" where
  "GetFieldID klass name sig w =
     (field_id w klass name sig, emit (FieldQuery klass name sig (field_id w klass name sig)) w)"

text \<open>
  Modelled from the spec: \<^verbatim>\<open>JNIEnv::GetObjectField\<close> (not among the sources). Section 6:
  given a locator and an instance, get the slot value.
\<close>

definition GetObjectField :: "nat \<Rightarrow> nat \<Rightarrow> world \<Rightarrow> jobject \<times> world" where
  "GetObjectField this fid w = (slots w this fid, emit (SlotRead this fid (slots w this fid)) w)"

text \<open>
  Modelled from the spec: \<^verbatim>\<open>JNIEnv::SetObjectField\<close> (not among the sources). Section 6:
  given a locator and an instance, set the slot value.
\<close>

definition SetObjectField :: "nat \<Rightarrow> nat \<Rightarrow> jobject \<Rightarrow> world \<Rightarrow> world" where
  "SetObjectField this fid v w =
     emit (SlotWrite this fid v) (w\<lparr>slots := (slots w)(this := (slots w this)(fid := v))\<rparr>)"

text \<open>
  Modelled from the spec: \<^verbatim>\<open>JNIEnv::NewWeakGlobalRef\<close> (not among the sources). Section 6:
  \<^verbatim>\<open>create(strongRef) -> weakRef\<close>. Each call hands out a handle never used before and
  records it as alive.
\<close>

definition NewWeakGlobalRef :: "nat \<Rightarrow> world \<Rightarrow> jweak \<times> world" where
  "NewWeakGlobalRef obj w =
     (Some (handles w),
      emit (WeakCreate obj (Some (handles w)))
        (w\<lparr>weak_refs := (handles w, obj) # weak_refs w, handles := Suc (handles w)\<rparr>))"

text \<open>
  Modelled from the spec: \<^verbatim>\<open>JNIEnv::DeleteWeakGlobalRef\<close> (not among the sources). Section 6:
  \<^verbatim>\<open>destroy(weakRef) -> void\<close>. The handle is no longer alive afterwards; destroying
  \<^verbatim>\<open>NULL\<close> does nothing.
\<close>

definition DeleteWeakGlobalRef :: "jweak \<Rightarrow> world \<Rightarrow> world" where
  "DeleteWeakGlobalRef gref w =
     emit (WeakDestroy gref)
       (case gref of
          None \<Rightarrow> w
        | Some h \<Rightarrow> w\<lparr>weak_refs := filter (\<lambda>p. fst p \<noteq> h) (weak_refs w)\<rparr>)"

text \<open>
  Modelled from the spec: \<^verbatim>\<open>mssleep\<close> of \<^verbatim>\<open>jni_tools.h\<close> (not among the sources). Section 6:
  a millisecond-granularity blocking sleep. How long a sleep really takes is the
  scheduler's business, so it is a parameter: \<open>slp n ms\<close> is the number of milliseconds by
  which the clock has moved when the sleep number \<open>n\<close> of the process, asked for \<open>ms\<close>
  milliseconds, returns. The routine passes \<^verbatim>\<open>(long) sleepTime\<close>; what the cast does to a
  value that does not fit a \<^verbatim>\<open>long\<close> is the platform's business and part of \<open>slp\<close> too.
\<close>

definition mssleep :: "(nat \<Rightarrow> jlong \<Rightarrow> int) \<Rightarrow> jlong \<Rightarrow> world \<Rightarrow> world" where
  "mssleep slp ms w =
     emit (Sleep ms) (w\<lparr>clock_ms := clock_ms w + slp (sleeps w) ms, sleeps := Suc (sleeps w)\<rparr>)"

text \<open>
  Modelled from the spec: \<^verbatim>\<open>time(NULL)\<close> of the C library. Section 6: a coarse
  (second-granularity) reader of the current time: the whole seconds of the clock.
\<close>

definition time :: "world \<Rightarrow> time_t \<times> world" where
  "time w = (clock_ms w div 1000, emit (ClockRead (clock_ms w div 1000)) w)"

text \<open>\<^verbatim>\<open>printf\<close> of a constant string: the line goes to the trace.\<close>

definition printf :: "string \<Rightarrow> world \<Rightarrow> world" where
  "printf s w = emit (Print s) w"

subsection \<open>The routine\<close>

text \<open>
  Lines 45 to 56: the field identifier is looked up only while the static variable is
  \<^verbatim>\<open>NULL\<close>. The result is the identifier to go on with, or \<open>None\<close> when the routine has
  printed its message and returns.
\<close>

definition resolve :: "nat \<Rightarrow> world \<Rightarrow> jfieldID \<times> world" where
  "resolve this w =
     (if objFieldId w = None then
        (case GetObjectClass this w of
           (None, w1) \<Rightarrow> (None, printf ''Error: GetObjectClass returned NULL\<newline>'' w1)
         | (Some klass, w1) \<Rightarrow>
             (case GetFieldID klass ''obj'' ''Ljava/lang/Object;'' w1 of
                (fid, w2) \<Rightarrow>
                  (let w3 = w2\<lparr>objFieldId := fid\<rparr> in
                   if objFieldId w3 = None
                   then (None, printf ''Error: GetFieldID returned NULL\<newline>'' w3)
                   else (objFieldId w3, w3))))
      else (objFieldId w, w))"

text \<open>
  Lines 67 to 71: one pass through the body of the loop, giving the new value of
  \<^verbatim>\<open>current_time\<close>.
\<close>

definition loop_body :: "(nat \<Rightarrow> jlong \<Rightarrow> int) \<Rightarrow> nat \<Rightarrow> jlong \<Rightarrow> world \<Rightarrow> time_t \<times> world" where
  "loop_body slp obj sleepTime w =
     (case NewWeakGlobalRef obj w of
        (gref, w1) \<Rightarrow>
          time (mssleep slp sleepTime (DeleteWeakGlobalRef gref (mssleep slp sleepTime w1))))"

text \<open>
  Lines 66 to 72: \<^verbatim>\<open>while (current_time - start_time < enterTime)\<close>. The loop need not
  end (a clock that stands still never reaches the budget), so its result is optional:
  \<open>None\<close> is a loop that runs forever. A finished loop gives the last value of
  \<^verbatim>\<open>current_time\<close> and the world.
\<close>

partial_function (option) loop ::
  "(nat \<Rightarrow> jlong \<Rightarrow> int) \<Rightarrow> nat \<Rightarrow> jlong \<Rightarrow> time_t \<Rightarrow> int \<Rightarrow> time_t \<Rightarrow> world \<Rightarrow> (time_t \<times> world) option"
where
  "loop slp obj sleepTime start_time enterTime current_time w =
     (if current_time - start_time < enterTime then
        (case loop_body slp obj sleepTime w of
           (t, w') \<Rightarrow> loop slp obj sleepTime start_time enterTime t w')
      else Some (current_time, w))"

text \<open>
  The whole routine. The receiver \<^verbatim>\<open>o\<close> of a native instance method is never \<^verbatim>\<open>NULL\<close>, so
  it is a reference \<open>this\<close>. \<^verbatim>\<open>enterTime /= 1000\<close> is the C division of a \<^verbatim>\<open>jlong\<close>, which
  truncates towards zero and cannot overflow. The routine returns nothing: its result is
  the world it leaves, or \<open>None\<close> when its loop never ends.
\<close>

definition Java_nsk_share_gc_lock_jniref_JNIWeakGlobalRefLocker_criticalNative ::
  "(nat \<Rightarrow> jlong \<Rightarrow> int) \<Rightarrow> nat \<Rightarrow> jlong \<Rightarrow> jlong \<Rightarrow> world \<Rightarrow> world option"
where
  "Java_nsk_share_gc_lock_jniref_JNIWeakGlobalRefLocker_criticalNative slp this enterTime sleepTime w =
     (case resolve this w of
        (None, w1) \<Rightarrow> Some w1
      | (Some fid, w1) \<Rightarrow>
          (case GetObjectField this fid w1 of
             (None, w2) \<Rightarrow> Some (printf ''Error: GetObjectField returned NULL\<newline>'' w2)
           | (Some obj, w2) \<Rightarrow>
               (case time (SetObjectField this fid None w2) of
                  (start_time, w3) \<Rightarrow>
                    (case loop slp obj sleepTime start_time (sint enterTime sdiv 1000) 0 w3 of
                       None \<Rightarrow> None
                     | Some (current_time, w4) \<Rightarrow>
                         Some (SetObjectField this fid (Some obj) w4)))))"

abbreviation criticalNative ::
  "(nat \<Rightarrow> jlong \<Rightarrow> int) \<Rightarrow> nat \<Rightarrow> jlong \<Rightarrow> jlong \<Rightarrow> world \<Rightarrow> world option"
where
  "criticalNative \<equiv> Java_nsk_share_gc_lock_jniref_JNIWeakGlobalRefLocker_criticalNative"

subsection \<open>Observing a run\<close>

text \<open>
  The world in which the loop starts (lines 57, 62 and 63): the field has been read and
  cleared and the start time has been taken.
\<close>

definition at_loop_entry :: "nat \<Rightarrow> nat \<Rightarrow> world \<Rightarrow> world" where
  "at_loop_entry this fid w =
     snd (time (SetObjectField this fid None (snd (GetObjectField this fid w))))"

text \<open>The events a run from \<open>w\<close> to \<open>w'\<close> has added to the trace.\<close>

definition new_events :: "world \<Rightarrow> world \<Rightarrow> event list" where
  "new_events w w' = drop (length (trace w)) (trace w')"

text \<open>
  The events of one pass through the loop body, for the handle \<open>h\<close> it was given and the
  clock reading \<open>t\<close> at its end.
\<close>

definition iteration :: "nat \<Rightarrow> jlong \<Rightarrow> nat \<times> time_t \<Rightarrow> event list" where
  "iteration obj sleepTime p =
     [WeakCreate obj (Some (fst p)), Sleep sleepTime,
      WeakDestroy (Some (fst p)), Sleep sleepTime, ClockRead (snd p)]"

text \<open>
  The weak handles that are alive after a sequence of events: a creation adds its handle,
  a destruction removes it.
\<close>

fun weak_step :: "nat list \<Rightarrow> event \<Rightarrow> nat list" where
  "weak_step hs (WeakCreate obj (Some h)) = h # hs"
| "weak_step hs (WeakDestroy (Some h)) = removeAll h hs"
| "weak_step hs e = hs"

definition alive_after :: "event list \<Rightarrow> nat list" where
  "alive_after es = foldl weak_step [] es"

text \<open>
  The loop after at most \<open>n\<close> passes: the state of a run that is still going on, or of one
  that has left the loop. It describes every run, also one that never ends.
\<close>

fun unroll ::
  "nat \<Rightarrow> (nat \<Rightarrow> jlong \<Rightarrow> int) \<Rightarrow> nat \<Rightarrow> jlong \<Rightarrow> time_t \<Rightarrow> int \<Rightarrow> time_t \<Rightarrow> world \<Rightarrow> time_t \<times> world"
where
  "unroll 0 slp obj sleepTime start_time enterTime current_time w = (current_time, w)"
| "unroll (Suc n) slp obj sleepTime start_time enterTime current_time w =
     (if current_time - start_time < enterTime then
        (case loop_body slp obj sleepTime w of
           (t, w') \<Rightarrow> unroll n slp obj sleepTime start_time enterTime t w')
      else (current_time, w))"

text \<open>
  A process calls the routine any number of times, one call after the other, each with
  its own receiver and arguments; a call that never returns ends the sequence.
\<close>

fun calls :: "(nat \<Rightarrow> jlong \<Rightarrow> int) \<Rightarrow> (nat \<times> jlong \<times> jlong) list \<Rightarrow> world \<Rightarrow> world option" where
  "calls slp [] w = Some w"
| "calls slp ((this, enterTime, sleepTime) # cs) w =
     (case criticalNative slp this enterTime sleepTime w of
        None \<Rightarrow> None
      | Some w' \<Rightarrow> calls slp cs w')"

text \<open>A lookup of the field identifier that has given one.\<close>

fun resolved :: "event \<Rightarrow> bool" where
  "resolved (FieldQuery klass name sig (Some fid)) = True"
| "resolved e = False"

text \<open>
  The lookups among some events, and the traces in which no lookup follows a lookup that
  has given a field identifier.
\<close>

definition lookups :: "event list \<Rightarrow> event list" where
  "lookups es = filter (\<lambda>e. is_ClassQuery e \<or> is_FieldQuery e) es"

fun settled :: "event list \<Rightarrow> bool" where
  "settled [] = True"
| "settled (e # es) = (if resolved e then lookups es = [] else settled es)"

text \<open>The number of weak references a run has created, and the number it has destroyed.\<close>

definition created :: "world \<Rightarrow> world \<Rightarrow> nat" where
  "created w w' = length (filter is_WeakCreate (new_events w w'))"

definition destroyed :: "world \<Rightarrow> world \<Rightarrow> nat" where
  "destroyed w w' = length (filter is_WeakDestroy (new_events w w'))"

subsection \<open>A call that has not returned yet\<close>

text \<open>
  The routine again, lines 45 to 73, with its loop stopped after at most \<open>n\<close> passes: the
  call has either returned, or it is still in its loop, where the test has just let it go
  on. This describes every call, also one whose loop never ends, at each moment of its
  run.
\<close>

datatype progress = Returned world | Looping world

fun world_of :: "progress \<Rightarrow> world" where
  "world_of (Returned w) = w"
| "world_of (Looping w) = w"

definition criticalNative_upto ::
  "nat \<Rightarrow> (nat \<Rightarrow> jlong \<Rightarrow> int) \<Rightarrow> nat \<Rightarrow> jlong \<Rightarrow> jlong \<Rightarrow> world \<Rightarrow> progress"
where
  "criticalNative_upto n slp this enterTime sleepTime w =
     (case resolve this w of
        (None, w1) \<Rightarrow> Returned w1
      | (Some fid, w1) \<Rightarrow>
          (case GetObjectField this fid w1 of
             (None, w2) \<Rightarrow> Returned (printf ''Error: GetObjectField returned NULL\<newline>'' w2)
           | (Some obj, w2) \<Rightarrow>
               (case time (SetObjectField this fid None w2) of
                  (start_time, w3) \<Rightarrow>
                    (case unroll n slp obj sleepTime start_time (sint enterTime sdiv 1000) 0 w3 of
                       (current_time, w4) \<Rightarrow>
                         if current_time - start_time < sint enterTime sdiv 1000
                         then Looping w4
                         else Returned (SetObjectField this fid (Some obj) w4)))))"

text \<open>
  A call is armed when it gets as far as its loop: the field identifier is there and the
  field of the receiver is not null (lines 45 to 61).
\<close>

definition armed :: "nat \<Rightarrow> world \<Rightarrow> bool" where
  "armed this w =
     (case resolve this w of
        (None, w1) \<Rightarrow> False
      | (Some fid, w1) \<Rightarrow> fst (GetObjectField this fid w1) \<noteq> None)"

text \<open>
  The clock readings among some events. In the events of an armed call the first reading
  is \<^verbatim>\<open>start_time\<close> (line 63) and the others are the values given to \<^verbatim>\<open>current_time\<close> at
  the end of the passes (line 71). So the values of \<^verbatim>\<open>current_time\<close> that the test of the
  loop has seen are the 0 of line 65 and then these readings: the last of them is the one
  with which the loop was left, the ones before it are those with which it went on.
\<close>

fun clock_reads :: "event list \<Rightarrow> time_t list" where
  "clock_reads [] = []"
| "clock_reads (ClockRead t # es) = t # clock_reads es"
| "clock_reads (e # es) = clock_reads es"

definition start_reading :: "event list \<Rightarrow> time_t" where
  "start_reading es = hd (clock_reads es)"

definition exit_reading :: "event list \<Rightarrow> time_t" where
  "exit_reading es = last (0 # tl (clock_reads es))"

definition passed_readings :: "event list \<Rightarrow> time_t list" where
  "passed_readings es = butlast (0 # tl (clock_reads es))"

subsection \<open>A small world to run the routine in\<close>

text \<open>
  Object 11 is a locker of class 10, whose field \<^verbatim>\<open>obj\<close> has the identifier 100 and holds
  object 7; object 12 is a locker whose field is null; object 13 has no class to give. The
  process has just started: nothing is cached and the clock shows five seconds.
\<close>

definition demo :: world where
  "demo = \<lparr>objFieldId = None,
           class_of = (\<lambda>x. if x = 11 \<or> x = 12 then Some 10 else None),
           field_id = (\<lambda>k n s. if k = 10 \<and> n = ''obj'' \<and> s = ''Ljava/lang/Object;''
                                 then Some 100 else None),
           slots = (\<lambda>x f. if x = 11 \<and> f = 100 then Some 7 else None),
           weak_refs = [], handles = 0, clock_ms = 5000, sleeps = 0, trace = []\<rparr>"

text \<open>
  The same world after the locker 11 has been called with a budget of 2000 milliseconds and
  sleeps of 500 milliseconds, each of which took 500 milliseconds.
\<close>

definition demo_done :: world where
  "demo_done = demo\<lparr>objFieldId := Some 100, handles := 2, clock_ms := 7000, sleeps := 4,
     trace := [ClassQuery 11 (Some 10), FieldQuery 10 ''obj'' ''Ljava/lang/Object;'' (Some 100),
               SlotRead 11 100 (Some 7), SlotWrite 11 100 None, ClockRead 5,
               WeakCreate 7 (Some 0), Sleep 500, WeakDestroy (Some 0), Sleep 500, ClockRead 6,
               WeakCreate 7 (Some 1), Sleep 500, WeakDestroy (Some 1), Sleep 500, ClockRead 7,
               SlotWrite 11 100 (Some 7)]\<rparr>"

text \<open>A scheduler without jitter: every sleep takes exactly the time it was asked for.\<close>

definition exact :: "nat \<Rightarrow> jlong \<Rightarrow> int" where
  "exact n ms = sint ms"

text \<open>A scheduler under which every sleep takes one second, whatever was asked for.\<close>

definition one_second :: "nat \<Rightarrow> jlong \<Rightarrow> int" where
  "one_second n ms = 1000"

section \<open>The timestamp of the debug log (AccessBridgeDebug.cpp)\<close>

text \<open>
  \<^verbatim>\<open>getTimeStamp\<close> reads \<^verbatim>\<open>std::chrono::steady_clock\<close>, converts the time since the clock's
  epoch to milliseconds with \<^verbatim>\<open>duration_cast\<close> and returns the count. The clock belongs to
  the C++ library: its reading \<open>now\<close> (a number of ticks) and the length of its tick are
  parameters. A tick is \<open>cn / cd\<close> milliseconds, in lowest terms; \<^verbatim>\<open>duration_cast\<close>
  multiplies by \<open>cn\<close> and divides by \<open>cd\<close>, and the division of C++ truncates towards
  zero.
\<close>

definition getTimeStamp :: "int \<Rightarrow> int \<Rightarrow> int \<Rightarrow> int" where
  "getTimeStamp cn cd now = (now * cn) sdiv cd"

section \<open>Properties of the locker\<close>

subsection \<open>The loop\<close>

text \<open>One pass through the body, written out.\<close>

lemma loop_body_eq:
  "loop_body slp obj s w =
     ((clock_ms w + slp (sleeps w) s + slp (Suc (sleeps w)) s) div 1000,
      w\<lparr>weak_refs := filter (\<lambda>p. fst p \<noteq> handles w) (weak_refs w),
        handles := Suc (handles w),
        clock_ms := clock_ms w + slp (sleeps w) s + slp (Suc (sleeps w)) s,
        sleeps := Suc (Suc (sleeps w)),
        trace := trace w @ iteration obj s
                   (handles w, (clock_ms w + slp (sleeps w) s + slp (Suc (sleeps w)) s) div 1000)\<rparr>)"
  by (simp add: loop_body_def NewWeakGlobalRef_def mssleep_def DeleteWeakGlobalRef_def time_def
      emit_def iteration_def)

lemma loop_exit: "\<not> cur - st < thr \<Longrightarrow> loop slp obj s st thr cur w = Some (cur, w)"
  by (subst loop.simps) simp

lemma loop_pass:
  "cur - st < thr \<Longrightarrow>
   loop slp obj s st thr cur w =
   loop slp obj s st thr (fst (loop_body slp obj s w)) (snd (loop_body slp obj s w))"
  by (subst loop.simps) (simp add: case_prod_beta)

lemma unroll_loop:
  "\<not> fst (unroll n slp obj s st thr cur w) - st < thr \<Longrightarrow>
   loop slp obj s st thr cur w = Some (unroll n slp obj s st thr cur w)"
proof (induction n arbitrary: cur w)
  case 0
  then show ?case by (simp add: loop_exit)
next
  case (Suc n)
  show ?case
  proof (cases "cur - st < thr")
    case True
    with Suc.prems
    have "\<not> fst (unroll n slp obj s st thr (fst (loop_body slp obj s w)) (snd (loop_body slp obj s w))) - st < thr"
      by (simp add: case_prod_beta)
    from Suc.IH [OF this] True show ?thesis
      by (simp add: loop_pass case_prod_beta)
  next
    case False
    then show ?thesis by (simp add: loop_exit)
  qed
qed

lemma loop_invariant:
  assumes run: "loop slp obj s st thr cur w = Some r"
    and init: "P cur w"
    and step: "\<And>c v. P c v \<Longrightarrow> c - st < thr \<Longrightarrow>
                 P (fst (loop_body slp obj s v)) (snd (loop_body slp obj s v))"
  shows "P (fst r) (snd r) \<and> \<not> fst r - st < thr"
proof -
  let ?Q = "\<lambda>slp' obj' s' st' thr' c v r'.
              slp' = slp \<and> obj' = obj \<and> s' = s \<and> st' = st \<and> thr' = thr \<longrightarrow> P c v \<longrightarrow>
              P (fst r') (snd r') \<and> \<not> fst r' - st < thr"
  have "?Q slp obj s st thr cur w r"
  proof (rule loop.raw_induct [where P = ?Q, OF _ run], intro impI, elim conjE)
    fix f slp' obj' s' st' thr' c v r'
    assume IH: "\<And>obj' s' st' thr' c v b y. f obj' s' st' thr' c v b = Some y \<Longrightarrow> ?Q obj' s' st' thr' c v b y"
      and eq: "(if c - st' < thr'
                then case loop_body slp' obj' s' v of (t, w') \<Rightarrow> f slp' obj' s' st' thr' t w'
                else Some (c, v)) = Some r'"
      and same: "slp' = slp" "obj' = obj" "s' = s" "st' = st" "thr' = thr"
      and inv: "P c v"
    show "P (fst r') (snd r') \<and> \<not> fst r' - st < thr"
    proof (cases "c - st < thr")
      case True
      with eq same have "f slp obj s st thr (fst (loop_body slp obj s v)) (snd (loop_body slp obj s v)) = Some r'"
        by (simp add: case_prod_beta)
      from IH [OF this] step [OF inv True] show ?thesis by simp
    next
      case False
      with eq same inv show ?thesis by auto
    qed
  qed
  with init show ?thesis by simp
qed

lemma unroll_Suc_end:
  "unroll (Suc n) slp obj s st thr cur w =
     (let r = unroll n slp obj s st thr cur w in
      if fst r - st < thr then loop_body slp obj s (snd r) else r)"
proof (induction n arbitrary: cur w)
  case 0
  show ?case by (simp add: case_prod_beta)
next
  case (Suc n)
  let ?t = "fst (loop_body slp obj s w)" and ?w = "snd (loop_body slp obj s w)"
  show ?case
  proof (cases "cur - st < thr")
    case True
    have a: "unroll (Suc (Suc n)) slp obj s st thr cur w = unroll (Suc n) slp obj s st thr ?t ?w"
      using True by (simp add: case_prod_beta)
    have b: "unroll (Suc n) slp obj s st thr cur w = unroll n slp obj s st thr ?t ?w"
      using True by (simp add: case_prod_beta)
    show ?thesis unfolding a b by (rule Suc.IH)
  next
    case False
    then show ?thesis by simp
  qed
qed

lemma loop_Some_unroll:
  assumes "loop slp obj s st thr cur w = Some r"
  shows "\<exists>n. r = unroll n slp obj s st thr cur w"
proof -
  have "(\<exists>n. (fst r, snd r) = unroll n slp obj s st thr cur w) \<and> \<not> fst r - st < thr"
  proof (rule loop_invariant [OF assms, where P = "\<lambda>c v. \<exists>n. (c, v) = unroll n slp obj s st thr cur w"])
    show "\<exists>n. (cur, w) = unroll n slp obj s st thr cur w"
      by (rule exI [of _ 0]) simp
  next
    fix c v
    assume "\<exists>n. (c, v) = unroll n slp obj s st thr cur w" and g: "c - st < thr"
    then obtain n where n: "unroll n slp obj s st thr cur w = (c, v)" by auto
    have "(fst (loop_body slp obj s v), snd (loop_body slp obj s v)) = unroll (Suc n) slp obj s st thr cur w"
      using g by (simp add: unroll_Suc_end n Let_def del: unroll.simps)
    then show "\<exists>n. (fst (loop_body slp obj s v), snd (loop_body slp obj s v)) = unroll n slp obj s st thr cur w"
      by blast
  qed
  then show ?thesis by simp
qed

lemma loop_terminates:
  assumes adv: "\<And>n ms. 0 < slp n ms"
  shows "\<exists>r. loop slp obj s st thr cur w = Some r"
proof (induction "nat (1000 * (st + thr) - clock_ms w)" arbitrary: cur w rule: less_induct)
  case less
  show ?case
  proof (cases "cur - st < thr")
    case False
    then show ?thesis by (simp add: loop_exit)
  next
    case True
    let ?t = "fst (loop_body slp obj s w)" and ?w = "snd (loop_body slp obj s w)"
    have clk: "clock_ms w < clock_ms ?w" "?t = clock_ms ?w div 1000"
      using adv [of "sleeps w" s] adv [of "Suc (sleeps w)" s] by (simp_all add: loop_body_eq)
    show ?thesis
    proof (cases "?t - st < thr")
      case False
      then show ?thesis by (simp add: loop_pass [OF True] loop_exit)
    next
      case again: True
      have "\<And>x k :: int. x div 1000 < k \<Longrightarrow> x < 1000 * k" by linarith
      with again clk have "clock_ms ?w < 1000 * (st + thr)" by simp
      with clk have "nat (1000 * (st + thr) - clock_ms ?w) < nat (1000 * (st + thr) - clock_ms w)"
        by linarith
      from less [OF this] show ?thesis by (simp add: loop_pass [OF True])
    qed
  qed
qed

subsection \<open>Field resolution\<close>

lemma resolve_cached: "objFieldId w = Some fid \<Longrightarrow> resolve this w = (Some fid, w)"
  by (simp add: resolve_def)

lemma resolve_no_class:
  "objFieldId w = None \<Longrightarrow> class_of w this = None \<Longrightarrow>
   resolve this w =
     (None, w\<lparr>trace := trace w @ [ClassQuery this None,
                                   Print ''Error: GetObjectClass returned NULL\<newline>'']\<rparr>)"
  by (simp add: resolve_def GetObjectClass_def printf_def emit_def)

lemma resolve_no_field:
  "objFieldId w = None \<Longrightarrow> class_of w this = Some k \<Longrightarrow>
   field_id w k ''obj'' ''Ljava/lang/Object;'' = None \<Longrightarrow>
   resolve this w =
     (None, w\<lparr>trace := trace w @ [ClassQuery this (Some k),
                                   FieldQuery k ''obj'' ''Ljava/lang/Object;'' None,
                                   Print ''Error: GetFieldID returned NULL\<newline>'']\<rparr>)"
  by (cases w) (simp add: resolve_def GetObjectClass_def GetFieldID_def printf_def emit_def)

lemma resolve_found:
  "objFieldId w = None \<Longrightarrow> class_of w this = Some k \<Longrightarrow>
   field_id w k ''obj'' ''Ljava/lang/Object;'' = Some fid \<Longrightarrow>
   resolve this w =
     (Some fid, w\<lparr>objFieldId := Some fid,
                   trace := trace w @ [ClassQuery this (Some k),
                                       FieldQuery k ''obj'' ''Ljava/lang/Object;'' (Some fid)]\<rparr>)"
  by (simp add: resolve_def GetObjectClass_def GetFieldID_def printf_def emit_def)

lemma resolve_cases:
  obtains (cached) fid where "objFieldId w = Some fid" "resolve this w = (Some fid, w)"
  | (no_class) "objFieldId w = None" "class_of w this = None"
      "resolve this w =
         (None, w\<lparr>trace := trace w @ [ClassQuery this None,
                                       Print ''Error: GetObjectClass returned NULL\<newline>'']\<rparr>)"
  | (no_field) k where "objFieldId w = None" "class_of w this = Some k"
      "field_id w k ''obj'' ''Ljava/lang/Object;'' = None"
      "resolve this w =
         (None, w\<lparr>trace := trace w @ [ClassQuery this (Some k),
                                       FieldQuery k ''obj'' ''Ljava/lang/Object;'' None,
                                       Print ''Error: GetFieldID returned NULL\<newline>'']\<rparr>)"
  | (found) k fid where "objFieldId w = None" "class_of w this = Some k"
      "field_id w k ''obj'' ''Ljava/lang/Object;'' = Some fid"
      "resolve this w =
         (Some fid, w\<lparr>objFieldId := Some fid,
                       trace := trace w @ [ClassQuery this (Some k),
                                           FieldQuery k ''obj'' ''Ljava/lang/Object;'' (Some fid)]\<rparr>)"
proof (cases "objFieldId w")
  case (Some fid)
  then show ?thesis using cached resolve_cached by blast
next
  case None
  show ?thesis
  proof (cases "class_of w this")
    case nc: None
    with None show ?thesis using no_class resolve_no_class by blast
  next
    case (Some k)
    show ?thesis
    proof (cases "field_id w k ''obj'' ''Ljava/lang/Object;''")
      case nf: None
      with None Some show ?thesis using no_field resolve_no_field by blast
    next
      case (Some fid)
      with None \<open>class_of w this = Some k\<close> show ?thesis using found resolve_found by blast
    qed
  qed
qed

lemma resolve_keeps:
  "slots (snd (resolve this w)) = slots w"
  "class_of (snd (resolve this w)) = class_of w"
  "field_id (snd (resolve this w)) = field_id w"
  "weak_refs (snd (resolve this w)) = weak_refs w"
  "handles (snd (resolve this w)) = handles w"
  "clock_ms (snd (resolve this w)) = clock_ms w"
  "sleeps (snd (resolve this w)) = sleeps w"
  by (rule resolve_cases [of w this]; simp)+

lemma at_loop_entry_eq:
  "at_loop_entry this fid w =
     w\<lparr>slots := (slots w)(this := (slots w this)(fid := None)),
       trace := trace w @ [SlotRead this fid (slots w this fid), SlotWrite this fid None,
                           ClockRead (clock_ms w div 1000)]\<rparr>"
  by (simp add: at_loop_entry_def time_def SetObjectField_def GetObjectField_def emit_def)

subsection \<open>The three ways through the routine\<close>

lemma criticalNative_failed:
  assumes "fst (resolve this w) = None"
  shows "criticalNative slp this enterTime sleepTime w = Some (snd (resolve this w))"
proof -
  from assms obtain w1 where "resolve this w = (None, w1)"
    by (metis prod.collapse)
  then show ?thesis
    by (simp add: Java_nsk_share_gc_lock_jniref_JNIWeakGlobalRefLocker_criticalNative_def)
qed

lemma criticalNative_missing:
  assumes "fst (resolve this w) = Some fid" and "slots w this fid = None"
  shows "criticalNative slp this enterTime sleepTime w =
     Some ((snd (resolve this w))
        \<lparr>trace := trace (snd (resolve this w)) @
           [SlotRead this fid None, Print ''Error: GetObjectField returned NULL\<newline>'']\<rparr>)"
proof -
  from assms obtain w1 where "resolve this w = (Some fid, w1)"
    by (metis prod.collapse)
  then show ?thesis
    using assms(2) resolve_keeps(1) [of this w]
    by (simp add: Java_nsk_share_gc_lock_jniref_JNIWeakGlobalRefLocker_criticalNative_def
        GetObjectField_def printf_def emit_def)
qed

lemma criticalNative_armed:
  assumes "fst (resolve this w) = Some fid" and "slots w this fid = Some x"
  shows "criticalNative slp this enterTime sleepTime w =
     map_option (\<lambda>r. SetObjectField this fid (Some x) (snd r))
       (loop slp x sleepTime (clock_ms w div 1000) (sint enterTime sdiv 1000) 0
          (at_loop_entry this fid (snd (resolve this w))))"
proof -
  from assms obtain w1 where "resolve this w = (Some fid, w1)"
    by (metis prod.collapse)
  then show ?thesis
    using assms(2) resolve_keeps(1,6) [of this w]
    by (simp add: Java_nsk_share_gc_lock_jniref_JNIWeakGlobalRefLocker_criticalNative_def
        at_loop_entry_def GetObjectField_def SetObjectField_def time_def emit_def
        split: option.splits)
qed

subsection \<open>What the passes of the loop do to the world\<close>

lemma unroll_keeps:
  "slots (snd (unroll n slp obj s st thr cur w)) = slots w \<and>
   objFieldId (snd (unroll n slp obj s st thr cur w)) = objFieldId w \<and>
   class_of (snd (unroll n slp obj s st thr cur w)) = class_of w \<and>
   field_id (snd (unroll n slp obj s st thr cur w)) = field_id w"
proof (induction n arbitrary: cur w)
  case 0
  show ?case by simp
next
  case (Suc n)
  show ?case
    using Suc.IH [of "fst (loop_body slp obj s w)" "snd (loop_body slp obj s w)"]
    by (simp add: case_prod_beta) (simp add: loop_body_eq)
qed

lemma unroll_trace:
  "\<exists>its. length its \<le> n \<and>
     trace (snd (unroll n slp obj s st thr cur w)) = trace w @ concat (map (iteration obj s) its)"
proof (induction n arbitrary: cur w)
  case 0
  show ?case by simp
next
  case (Suc n)
  show ?case
  proof (cases "cur - st < thr")
    case True
    let ?t = "fst (loop_body slp obj s w)" and ?w = "snd (loop_body slp obj s w)"
    from Suc.IH [of ?t ?w] obtain its where its: "length its \<le> n"
      "trace (snd (unroll n slp obj s st thr ?t ?w)) = trace ?w @ concat (map (iteration obj s) its)"
      by blast
    have "trace ?w = trace w @ iteration obj s (handles w, ?t)"
      by (simp add: loop_body_eq)
    with its True
    have "length ((handles w, ?t) # its) \<le> Suc n \<and>
          trace (snd (unroll (Suc n) slp obj s st thr cur w)) =
          trace w @ concat (map (iteration obj s) ((handles w, ?t) # its))"
      by (simp add: case_prod_beta)
    then show ?thesis by blast
  next
    case False
    then have "length ([] :: (nat \<times> int) list) \<le> Suc n \<and>
          trace (snd (unroll (Suc n) slp obj s st thr cur w)) =
          trace w @ concat (map (iteration obj s) [])"
      by simp
    then show ?thesis by blast
  qed
qed

lemma loop_keeps:
  assumes "loop slp obj s st thr cur w = Some r"
  shows "slots (snd r) = slots w" "objFieldId (snd r) = objFieldId w"
    "class_of (snd r) = class_of w" "field_id (snd r) = field_id w"
  using loop_Some_unroll [OF assms] unroll_keeps by metis+

lemma loop_trace:
  assumes "loop slp obj s st thr cur w = Some r"
  shows "\<exists>its. trace (snd r) = trace w @ concat (map (iteration obj s) its)"
  using loop_Some_unroll [OF assms] unroll_trace by metis

subsection \<open>Weak handles alive along a trace of passes\<close>

lemma alive_after_iteration: "alive_after (iteration obj s p @ es) = alive_after es"
  by (simp add: alive_after_def iteration_def)

lemma alive_after_part:
  assumes "k < 5"
  shows "length (alive_after (take k (iteration obj s p))) \<le> 1"
proof -
  from assms consider "k = 0" | "k = 1" | "k = 2" | "k = 3" | "k = 4" by linarith
  then show ?thesis
    by cases (simp_all add: alive_after_def iteration_def)
qed

lemma alive_after_passes:
  "length (alive_after (take k (concat (map (iteration obj s) its)))) \<le> 1"
proof (induction its arbitrary: k)
  case Nil
  show ?case by (simp add: alive_after_def)
next
  case (Cons p its)
  have len: "length (iteration obj s p) = 5" by (simp add: iteration_def)
  show ?case
  proof (cases "k < 5")
    case True
    then show ?thesis using alive_after_part [OF True, of obj s p] by (simp add: len)
  next
    case False
    then have "take k (concat (map (iteration obj s) (p # its))) =
               iteration obj s p @ take (k - 5) (concat (map (iteration obj s) its))"
      by (simp add: len)
    then show ?thesis using Cons.IH [of "k - 5"] by (simp add: alive_after_iteration)
  qed
qed

subsection \<open>A budget of two seconds with sleeps of half a second\<close>

lemma two_passes:
  assumes det: "\<And>n. slp n 500 = 500" and clk: "- 1000 \<le> clock_ms w"
  shows "loop slp x 500 (clock_ms w div 1000) 2 0 w =
     Some (clock_ms w div 1000 + 2,
           w\<lparr>weak_refs := filter (\<lambda>p. fst p \<noteq> Suc (handles w))
                            (filter (\<lambda>p. fst p \<noteq> handles w) (weak_refs w)),
             handles := Suc (Suc (handles w)),
             clock_ms := clock_ms w + 2000,
             sleeps := Suc (Suc (Suc (Suc (sleeps w)))),
             trace := trace w @ iteration x 500 (handles w, clock_ms w div 1000 + 1)
                              @ iteration x 500 (Suc (handles w), clock_ms w div 1000 + 2)\<rparr>)"
proof -
  have d1: "(1000 + clock_ms w) div 1000 = clock_ms w div 1000 + 1"
    and d2: "(2000 + clock_ms w) div 1000 = clock_ms w div 1000 + 2"
    and st: "- 1 \<le> clock_ms w div 1000"
    using clk by linarith+
  have u: "unroll 2 slp x 500 (clock_ms w div 1000) 2 0 w =
     (clock_ms w div 1000 + 2,
           w\<lparr>weak_refs := filter (\<lambda>p. fst p \<noteq> Suc (handles w))
                            (filter (\<lambda>p. fst p \<noteq> handles w) (weak_refs w)),
             handles := Suc (Suc (handles w)),
             clock_ms := clock_ms w + 2000,
             sleeps := Suc (Suc (Suc (Suc (sleeps w)))),
             trace := trace w @ iteration x 500 (handles w, clock_ms w div 1000 + 1)
                              @ iteration x 500 (Suc (handles w), clock_ms w div 1000 + 2)\<rparr>)"
    using st by (simp add: numeral_2_eq_2 loop_body_eq det d1 d2)
  have "\<not> fst (unroll 2 slp x 500 (clock_ms w div 1000) 2 0 w) - clock_ms w div 1000 < 2"
    unfolding u by simp
  from unroll_loop [OF this] show ?thesis unfolding u .
qed

lemma run_2000_500:
  assumes res: "fst (resolve this w) = Some fid" and slot: "slots w this fid = Some x"
    and det: "\<And>n. slp n 500 = 500" and clk: "- 1000 \<le> clock_ms w"
  shows "criticalNative slp this 2000 500 w =
     Some ((snd (resolve this w))
        \<lparr>weak_refs := filter (\<lambda>p. fst p \<noteq> Suc (handles w))
                         (filter (\<lambda>p. fst p \<noteq> handles w) (weak_refs w)),
          handles := Suc (Suc (handles w)),
          clock_ms := clock_ms w + 2000,
          sleeps := Suc (Suc (Suc (Suc (sleeps w)))),
          trace := trace (snd (resolve this w)) @
                   [SlotRead this fid (Some x), SlotWrite this fid None,
                    ClockRead (clock_ms w div 1000)] @
                   iteration x 500 (handles w, clock_ms w div 1000 + 1) @
                   iteration x 500 (Suc (handles w), clock_ms w div 1000 + 2) @
                   [SlotWrite this fid (Some x)]\<rparr>)"
proof -
  let ?w1 = "snd (resolve this w)"
  let ?w3 = "at_loop_entry this fid ?w1"
  have c: "clock_ms ?w3 = clock_ms w" "handles ?w3 = handles w" "sleeps ?w3 = sleeps w"
    "weak_refs ?w3 = weak_refs w"
    by (simp_all add: at_loop_entry_eq resolve_keeps)
  have b: "sint (2000 :: 64 word) sdiv 1000 = 2" by simp
  have s: "slots ?w1 this fid = Some x" by (simp add: resolve_keeps slot)
  from clk have "- 1000 \<le> clock_ms ?w3" by (simp add: c)
  from two_passes [of slp ?w3 x, OF det this]
  have l: "loop slp x 500 (clock_ms w div 1000) 2 0 ?w3 =
     Some (clock_ms w div 1000 + 2,
           ?w3\<lparr>weak_refs := filter (\<lambda>p. fst p \<noteq> Suc (handles w))
                            (filter (\<lambda>p. fst p \<noteq> handles w) (weak_refs w)),
             handles := Suc (Suc (handles w)),
             clock_ms := clock_ms w + 2000,
             sleeps := Suc (Suc (Suc (Suc (sleeps w)))),
             trace := trace ?w3 @ iteration x 500 (handles w, clock_ms w div 1000 + 1)
                              @ iteration x 500 (Suc (handles w), clock_ms w div 1000 + 2)\<rparr>)"
    by (simp only: c)
  have restore: "(slots ?w1)(this := (slots ?w1 this)(fid := Some x)) = slots ?w1"
    using s by (simp add: fun_upd_idem)
  show ?thesis
    unfolding criticalNative_armed [OF res slot] b l
    by (simp add: at_loop_entry_eq SetObjectField_def emit_def s restore resolve_keeps(6))
qed

lemma demo_resolve:
  "resolve 11 demo =
     (Some 100, demo\<lparr>objFieldId := Some 100,
                     trace := [ClassQuery 11 (Some 10),
                               FieldQuery 10 ''obj'' ''Ljava/lang/Object;'' (Some 100)]\<rparr>)"
  using resolve_found [of demo 11 10 100] by (simp add: demo_def)

lemma demo_run: "criticalNative exact 11 2000 500 demo = Some demo_done"
proof -
  have "fst (resolve 11 demo) = Some 100" "slots demo 11 100 = Some 7"
    "exact n 500 = 500" "- 1000 \<le> clock_ms demo" for n
    by (simp_all add: demo_resolve) (simp_all add: demo_def exact_def)
  with run_2000_500 [of 11 demo 100 7 exact] show ?thesis
    by (simp add: demo_resolve iteration_def demo_done_def) (simp add: demo_def)
qed

subsection \<open>Events of a run\<close>

lemma new_events_append: "trace w' = trace w @ es \<Longrightarrow> new_events w w' = es"
  by (simp add: new_events_def)

lemma resolve_trace:
  "\<exists>es. trace (snd (resolve this w)) = trace w @ es \<and>
        (\<forall>e \<in> set es. is_ClassQuery e \<or> is_FieldQuery e \<or> is_Print e) \<and>
        (objFieldId w \<noteq> None \<longrightarrow> es = [])"
  by (rule resolve_cases [of w this]) simp_all

lemma unroll_passes:
  "\<exists>its. length its \<le> n \<and> map fst its = [handles w..<handles w + length its] \<and>
     trace (snd (unroll n slp obj s st thr cur w)) = trace w @ concat (map (iteration obj s) its)"
proof (induction n arbitrary: cur w)
  case 0
  show ?case by simp
next
  case (Suc n)
  show ?case
  proof (cases "cur - st < thr")
    case True
    let ?t = "fst (loop_body slp obj s w)" and ?w = "snd (loop_body slp obj s w)"
    from Suc.IH [of ?w ?t] obtain its where its: "length its \<le> n"
      "map fst its = [handles ?w..<handles ?w + length its]"
      "trace (snd (unroll n slp obj s st thr ?t ?w)) = trace ?w @ concat (map (iteration obj s) its)"
      by blast
    have b: "trace ?w = trace w @ iteration obj s (handles w, ?t)" "handles ?w = Suc (handles w)"
      by (simp_all add: loop_body_eq)
    have "[handles w..<handles w + Suc (length its)] =
          handles w # [Suc (handles w)..<Suc (handles w) + length its]"
      by (rule trans [OF upt_conv_Cons]) simp_all
    with its(2) have "map fst ((handles w, ?t) # its) =
          [handles w..<handles w + length ((handles w, ?t) # its)]"
      by (simp only: b list.map fst_conv length_Cons)
    moreover from its(1,3) True
    have "length ((handles w, ?t) # its) \<le> Suc n \<and>
          trace (snd (unroll (Suc n) slp obj s st thr cur w)) =
          trace w @ concat (map (iteration obj s) ((handles w, ?t) # its))"
      by (simp add: case_prod_beta b)
    ultimately show ?thesis by blast
  next
    case False
    then have "length ([] :: (nat \<times> int) list) \<le> Suc n \<and>
          map fst ([] :: (nat \<times> int) list) = [handles w..<handles w + length ([] :: (nat \<times> int) list)] \<and>
          trace (snd (unroll (Suc n) slp obj s st thr cur w)) =
          trace w @ concat (map (iteration obj s) [])"
      by simp
    then show ?thesis by blast
  qed
qed

subsection \<open>The clock along the loop\<close>

lemma loop_clock:
  assumes adv: "\<And>n ms. 0 \<le> slp n ms"
    and run: "loop slp obj s st thr cur w = Some r"
    and enter: "cur - st < thr"
  shows "fst r = clock_ms (snd r) div 1000 \<and>
         clock_ms w + slp (sleeps w) s + slp (Suc (sleeps w)) s \<le> clock_ms (snd r)"
proof -
  let ?t = "fst (loop_body slp obj s w)" and ?w = "snd (loop_body slp obj s w)"
  let ?P = "\<lambda>c v. c = clock_ms v div 1000 \<and> clock_ms ?w \<le> clock_ms v"
  from run enter have run': "loop slp obj s st thr ?t ?w = Some r"
    by (simp add: loop_pass)
  have "?P (fst r) (snd r) \<and> \<not> fst r - st < thr"
  proof (rule loop_invariant [OF run', where P = ?P])
    show "?P ?t ?w" by (simp add: loop_body_eq)
  next
    fix c and v :: world
    assume "?P c v"
    with adv [of "sleeps v" s] adv [of "Suc (sleeps v)" s]
    show "?P (fst (loop_body slp obj s v)) (snd (loop_body slp obj s v))"
      by (simp add: loop_body_eq [of slp obj s v])
  qed
  then show ?thesis by (simp add: loop_body_eq [of slp obj s w])
qed

lemma criticalNative_returns:
  assumes adv: "\<And>n ms. 0 < slp n ms"
  shows "\<exists>w'. criticalNative slp this enterTime sleepTime w = Some w'"
proof (cases "fst (resolve this w)")
  case None
  from criticalNative_failed [OF this] show ?thesis by blast
next
  case (Some fid)
  show ?thesis
  proof (cases "slots w this fid")
    case None
    from criticalNative_missing [OF Some this] show ?thesis by blast
  next
    case (Some x)
    from loop_terminates [of slp x sleepTime "clock_ms w div 1000" "sint enterTime sdiv 1000" 0
        "at_loop_entry this fid (snd (resolve this w))", OF adv]
    show ?thesis
      unfolding criticalNative_armed [OF \<open>fst (resolve this w) = Some fid\<close> Some] by auto
  qed
qed

subsection \<open>Counting the weak references of a call\<close>

lemma lookups_not_weak:
  "\<forall>e \<in> set es. is_ClassQuery e \<or> is_FieldQuery e \<or> is_Print e \<Longrightarrow>
   filter is_WeakCreate es = [] \<and> filter is_WeakDestroy es = []"
  by (induction es) auto

lemma resolve_not_weak:
  "\<exists>es. trace (snd (resolve this w)) = trace w @ es \<and>
        filter is_WeakCreate es = [] \<and> filter is_WeakDestroy es = []"
  using resolve_trace [of this w] lookups_not_weak by blast

lemma run_no_pass:
  assumes res: "fst (resolve this w) = Some fid" and slot: "slots w this fid = Some x"
    and over: "\<not> 0 - clock_ms w div 1000 < sint enterTime sdiv 1000"
  shows "\<exists>w'. criticalNative slp this enterTime sleepTime w = Some w' \<and>
           created w w' = 0 \<and> destroyed w w' = 0"
proof -
  let ?w1 = "snd (resolve this w)"
  let ?w3 = "at_loop_entry this fid ?w1"
  let ?w' = "SetObjectField this fid (Some x) ?w3"
  from resolve_not_weak [of this w] obtain es where es: "trace ?w1 = trace w @ es"
    "filter is_WeakCreate es = []" "filter is_WeakDestroy es = []" by blast
  have "trace ?w' = trace w @ es @ [SlotRead this fid (Some x), SlotWrite this fid None,
          ClockRead (clock_ms w div 1000), SlotWrite this fid (Some x)]"
    by (simp add: SetObjectField_def emit_def at_loop_entry_eq es resolve_keeps slot)
  from new_events_append [OF this] es(2,3)
  have "created w ?w' = 0 \<and> destroyed w ?w' = 0"
    by (simp add: created_def destroyed_def)
  moreover have "criticalNative slp this enterTime sleepTime w = Some ?w'"
    unfolding criticalNative_armed [OF res slot] by (simp add: loop_exit [OF over])
  ultimately show ?thesis by blast
qed

lemma run_some_pass:
  assumes res: "fst (resolve this w) = Some fid" and slot: "slots w this fid = Some x"
    and enter: "0 - clock_ms w div 1000 < sint enterTime sdiv 1000"
    and run: "criticalNative slp this enterTime sleepTime w = Some w'"
  shows "1 \<le> created w w' \<and> 1 \<le> destroyed w w'"
proof -
  let ?w1 = "snd (resolve this w)"
  let ?w3 = "at_loop_entry this fid ?w1"
  let ?st = "clock_ms w div 1000" and ?thr = "sint enterTime sdiv 1000"
  let ?t = "fst (loop_body slp x sleepTime ?w3)" and ?w4 = "snd (loop_body slp x sleepTime ?w3)"
  from run obtain r
    where r: "loop slp x sleepTime ?st ?thr 0 ?w3 = Some r"
      and w': "w' = SetObjectField this fid (Some x) (snd r)"
    unfolding criticalNative_armed [OF res slot] by auto
  from r enter have "loop slp x sleepTime ?st ?thr ?t ?w4 = Some r"
    by (simp add: loop_pass)
  from loop_trace [OF this] obtain its
    where its: "trace (snd r) = trace ?w4 @ concat (map (iteration x sleepTime) its)" by blast
  from resolve_not_weak [of this w] obtain es where es: "trace ?w1 = trace w @ es"
    "filter is_WeakCreate es = []" "filter is_WeakDestroy es = []" by blast
  have "trace ?w4 = trace ?w3 @ iteration x sleepTime (handles ?w3, ?t)"
    by (simp add: loop_body_eq)
  with its have "trace w' = trace w @ es @ [SlotRead this fid (Some x), SlotWrite this fid None,
          ClockRead (clock_ms w div 1000)] @ iteration x sleepTime (handles ?w3, ?t) @
          concat (map (iteration x sleepTime) its) @ [SlotWrite this fid (Some x)]"
    by (simp add: w' SetObjectField_def emit_def at_loop_entry_eq es resolve_keeps slot)
  from new_events_append [OF this] es(2,3)
  show ?thesis
    by (simp add: created_def destroyed_def iteration_def)
qed

lemma run_one_pass:
  assumes res: "fst (resolve this w) = Some fid" and slot: "slots w this fid = Some x"
    and enter: "0 - clock_ms w div 1000 < sint enterTime sdiv 1000"
    and over: "\<not> (clock_ms w + slp (sleeps w) sleepTime + slp (Suc (sleeps w)) sleepTime) div 1000
                   - clock_ms w div 1000 < sint enterTime sdiv 1000"
  shows "\<exists>w'. criticalNative slp this enterTime sleepTime w = Some w' \<and>
           created w w' = 1 \<and> destroyed w w' = 1"
proof -
  let ?w1 = "snd (resolve this w)"
  let ?w3 = "at_loop_entry this fid ?w1"
  let ?st = "clock_ms w div 1000" and ?thr = "sint enterTime sdiv 1000"
  let ?t = "fst (loop_body slp x sleepTime ?w3)" and ?w4 = "snd (loop_body slp x sleepTime ?w3)"
  let ?w' = "SetObjectField this fid (Some x) ?w4"
  have t: "?t = (clock_ms w + slp (sleeps w) sleepTime + slp (Suc (sleeps w)) sleepTime) div 1000"
    by (simp add: loop_body_eq at_loop_entry_eq resolve_keeps)
  with over have "\<not> ?t - ?st < ?thr" by simp
  from loop_exit [OF this] enter
  have "loop slp x sleepTime ?st ?thr 0 ?w3 = Some (?t, ?w4)"
    by (simp add: loop_pass)
  then have "criticalNative slp this enterTime sleepTime w = Some ?w'"
    unfolding criticalNative_armed [OF res slot] by simp
  moreover
  from resolve_not_weak [of this w] obtain es where es: "trace ?w1 = trace w @ es"
    "filter is_WeakCreate es = []" "filter is_WeakDestroy es = []" by blast
  have "trace ?w4 = trace ?w3 @ iteration x sleepTime (handles ?w3, ?t)"
    by (simp add: loop_body_eq)
  then have "trace ?w' = trace w @ es @ [SlotRead this fid (Some x), SlotWrite this fid None,
          ClockRead (clock_ms w div 1000)] @ iteration x sleepTime (handles ?w3, ?t) @
          [SlotWrite this fid (Some x)]"
    by (simp add: SetObjectField_def emit_def at_loop_entry_eq es resolve_keeps slot)
  from new_events_append [OF this] es(2,3)
  have "created w ?w' = 1 \<and> destroyed w ?w' = 1"
    by (simp add: created_def destroyed_def iteration_def)
  ultimately show ?thesis by blast
qed

lemma demo_armed: "fst (resolve 11 demo) = Some 100" "slots demo 11 100 = Some 7"
  by (simp_all add: demo_resolve) (simp add: demo_def)

lemma sdiv_1000_nonneg: "- 1000 < (k :: int) \<Longrightarrow> 0 \<le> k sdiv 1000"
  by (cases "0 \<le> k") (simp_all add: signed_divide_int_def sgn_if)

subsection \<open>Lookups of the field identifier\<close>

lemma resolved_lookup: "lookups es = [] \<Longrightarrow> filter resolved es = []"
proof (induction es)
  case Nil
  show ?case by simp
next
  case (Cons e es)
  then show ?case by (cases e rule: resolved.cases) (simp_all add: lookups_def split: if_splits)
qed

lemma settled_no_lookups: "lookups es = [] \<Longrightarrow> settled es"
proof (induction es)
  case Nil
  show ?case by simp
next
  case (Cons e es)
  then show ?case by (cases e rule: resolved.cases) (simp_all add: lookups_def split: if_splits)
qed

lemma lookups_append: "lookups (xs @ ys) = lookups xs @ lookups ys"
  by (simp add: lookups_def)

lemma settled_append:
  "settled (xs @ ys) =
     (if filter resolved xs = [] then settled ys else settled xs \<and> lookups ys = [])"
  by (induction xs) (auto simp add: lookups_append)

lemma passes_lookups: "lookups (concat (map (iteration obj s) its)) = []"
  by (induction its) (simp_all add: lookups_def iteration_def)

lemma resolve_lookups:
  "\<exists>es. trace (snd (resolve this w)) = trace w @ es \<and>
     (objFieldId w \<noteq> None \<longrightarrow> objFieldId (snd (resolve this w)) = objFieldId w \<and> es = []) \<and>
     (objFieldId w = None \<longrightarrow> settled es \<and> length (filter resolved es) \<le> 1 \<and>
        (objFieldId (snd (resolve this w)) = None \<longleftrightarrow> filter resolved es = []))"
  by (rule resolve_cases [of w this]) (simp_all add: lookups_def)

lemma after_resolve:
  assumes "criticalNative slp this enterTime sleepTime w = Some w'"
  shows "\<exists>rest. trace w' = trace (snd (resolve this w)) @ rest \<and> lookups rest = [] \<and>
           objFieldId w' = objFieldId (snd (resolve this w))"
proof (cases "fst (resolve this w)")
  case None
  from criticalNative_failed [OF this, of slp enterTime sleepTime] assms
  show ?thesis by (simp add: lookups_def)
next
  case (Some fid)
  let ?w1 = "snd (resolve this w)"
  show ?thesis
  proof (cases "slots w this fid")
    case None
    from criticalNative_missing [OF Some this, of slp enterTime sleepTime] assms
    have "trace w' = trace ?w1 @
            [SlotRead this fid None, Print ''Error: GetObjectField returned NULL\<newline>'']"
      "objFieldId w' = objFieldId ?w1"
      by auto
    then show ?thesis by (simp add: lookups_def)
  next
    case x: (Some x)
    let ?w3 = "at_loop_entry this fid ?w1"
    from assms obtain r
      where r: "loop slp x sleepTime (clock_ms w div 1000) (sint enterTime sdiv 1000) 0 ?w3 = Some r"
        and w': "w' = SetObjectField this fid (Some x) (snd r)"
      unfolding criticalNative_armed [OF Some x] by auto
    from loop_trace [OF r] obtain its
      where its: "trace (snd r) = trace ?w3 @ concat (map (iteration x sleepTime) its)" by blast
    have "trace w' = trace ?w1 @
            ([SlotRead this fid (slots ?w1 this fid), SlotWrite this fid None,
              ClockRead (clock_ms ?w1 div 1000)] @
             concat (map (iteration x sleepTime) its) @ [SlotWrite this fid (Some x)])"
      by (simp add: w' SetObjectField_def emit_def its at_loop_entry_eq)
    moreover have "lookups ([SlotRead this fid (slots ?w1 this fid), SlotWrite this fid None,
              ClockRead (clock_ms ?w1 div 1000)] @
             concat (map (iteration x sleepTime) its) @ [SlotWrite this fid (Some x)]) = []"
      by (simp add: lookups_def passes_lookups [unfolded lookups_def])
    moreover have "objFieldId w' = objFieldId ?w1"
      using loop_keeps(2) [OF r] by (simp add: w' SetObjectField_def emit_def at_loop_entry_eq)
    ultimately show ?thesis by blast
  qed
qed

lemma call_locator:
  assumes "criticalNative slp this enterTime sleepTime w = Some w'"
  shows "\<exists>new. trace w' = trace w @ new \<and>
     (objFieldId w \<noteq> None \<longrightarrow> objFieldId w' = objFieldId w \<and> lookups new = []) \<and>
     (objFieldId w = None \<longrightarrow> settled new \<and> length (filter resolved new) \<le> 1 \<and>
        (objFieldId w' = None \<longleftrightarrow> filter resolved new = []))"
proof -
  from after_resolve [OF assms] obtain rest
    where rest: "trace w' = trace (snd (resolve this w)) @ rest" "lookups rest = []"
      "objFieldId w' = objFieldId (snd (resolve this w))" by blast
  from resolve_lookups [of this w] obtain es
    where es: "trace (snd (resolve this w)) = trace w @ es"
      "objFieldId w \<noteq> None \<longrightarrow> objFieldId (snd (resolve this w)) = objFieldId w \<and> es = []"
      "objFieldId w = None \<longrightarrow> settled es \<and> length (filter resolved es) \<le> 1 \<and>
        (objFieldId (snd (resolve this w)) = None \<longleftrightarrow> filter resolved es = [])"
    by (elim exE conjE) (rule that, assumption+)
  have f: "filter resolved rest = []" by (rule resolved_lookup) (rule rest(2))
  have "trace w' = trace w @ (es @ rest)" by (simp add: rest(1) es(1))
  moreover have "objFieldId w \<noteq> None \<longrightarrow> objFieldId w' = objFieldId w \<and> lookups (es @ rest) = []"
    using es(2) rest(2,3) by (simp add: lookups_def)
  moreover have "objFieldId w = None \<longrightarrow> settled (es @ rest) \<and>
        length (filter resolved (es @ rest)) \<le> 1 \<and>
        (objFieldId w' = None \<longleftrightarrow> filter resolved (es @ rest) = [])"
    using es(3) rest(2,3) f settled_no_lookups [OF rest(2)] by (simp add: settled_append)
  ultimately show ?thesis by (intro exI [of _ "es @ rest"] conjI)
qed

lemma calls_locator:
  assumes "calls slp cs w = Some w'"
  shows "\<exists>new. trace w' = trace w @ new \<and>
     (objFieldId w \<noteq> None \<longrightarrow> objFieldId w' = objFieldId w \<and> lookups new = []) \<and>
     (objFieldId w = None \<longrightarrow> settled new \<and> length (filter resolved new) \<le> 1 \<and>
        (objFieldId w' = None \<longleftrightarrow> filter resolved new = []))"
  using assms
proof (induction cs arbitrary: w)
  case Nil
  then have "trace w' = trace w @ []" "objFieldId w' = objFieldId w" by simp_all
  then show ?case by (intro exI [of _ "[]"]) (simp add: lookups_def)
next
  case (Cons c cs)
  obtain this enterTime sleepTime where c: "c = (this, enterTime, sleepTime)"
    by (cases c) auto
  from Cons.prems c obtain w1
    where w1: "criticalNative slp this enterTime sleepTime w = Some w1"
      and rest: "calls slp cs w1 = Some w'"
    by (auto split: option.splits)
  from call_locator [OF w1] obtain new1
    where n1: "trace w1 = trace w @ new1"
      "objFieldId w \<noteq> None \<longrightarrow> objFieldId w1 = objFieldId w \<and> lookups new1 = []"
      "objFieldId w = None \<longrightarrow> settled new1 \<and> length (filter resolved new1) \<le> 1 \<and>
        (objFieldId w1 = None \<longleftrightarrow> filter resolved new1 = [])"
    by (elim exE conjE) (rule that, assumption+)
  from Cons.IH [OF rest] obtain new2
    where n2: "trace w' = trace w1 @ new2"
      "objFieldId w1 \<noteq> None \<longrightarrow> objFieldId w' = objFieldId w1 \<and> lookups new2 = []"
      "objFieldId w1 = None \<longrightarrow> settled new2 \<and> length (filter resolved new2) \<le> 1 \<and>
        (objFieldId w' = None \<longleftrightarrow> filter resolved new2 = [])"
    by (elim exE conjE) (rule that, assumption+)
  have t: "trace w' = trace w @ (new1 @ new2)" by (simp add: n1(1) n2(1))
  have a: "objFieldId w \<noteq> None \<longrightarrow> objFieldId w' = objFieldId w \<and> lookups (new1 @ new2) = []"
    using n1(2) n2(2) by (auto simp add: lookups_append)
  have b: "objFieldId w = None \<longrightarrow> settled (new1 @ new2) \<and>
        length (filter resolved (new1 @ new2)) \<le> 1 \<and>
        (objFieldId w' = None \<longleftrightarrow> filter resolved (new1 @ new2) = [])"
  proof
    assume none: "objFieldId w = None"
    show "settled (new1 @ new2) \<and> length (filter resolved (new1 @ new2)) \<le> 1 \<and>
        (objFieldId w' = None \<longleftrightarrow> filter resolved (new1 @ new2) = [])"
    proof (cases "objFieldId w1")
      case None
      with n1(3) n2(3) none show ?thesis by (simp add: settled_append)
    next
      case (Some fid)
      with n2(2) have l: "objFieldId w' = Some fid" "lookups new2 = []" by simp_all
      from resolved_lookup [OF l(2)] n1(3) none Some l show ?thesis
        by (simp add: settled_append)
    qed
  qed
  show ?case by (rule exI [of _ "new1 @ new2"]) (intro conjI t a b)
qed

lemma calls_return:
  assumes adv: "\<And>n ms. 0 < slp n ms"
  shows "\<exists>w'. calls slp cs w = Some w'"
proof (induction cs arbitrary: w)
  case Nil
  show ?case by simp
next
  case (Cons c cs)
  obtain this enterTime sleepTime where c: "c = (this, enterTime, sleepTime)"
    by (cases c) auto
  from criticalNative_returns [of slp this enterTime sleepTime w, OF adv] obtain w1
    where "criticalNative slp this enterTime sleepTime w = Some w1" by blast
  with Cons.IH [of w1] c show ?case by simp
qed

subsection \<open>Calls that have not returned yet\<close>

lemma armed_iff:
  "armed this w \<longleftrightarrow> (\<exists>fid x. fst (resolve this w) = Some fid \<and> slots w this fid = Some x)"
proof -
  obtain f w1 where r: "resolve this w = (f, w1)" by force
  have "slots w1 = slots w" using resolve_keeps(1) [of this w] by (simp add: r)
  then show ?thesis
    by (cases f) (simp_all add: armed_def r GetObjectField_def)
qed

lemma upto_failed:
  assumes "fst (resolve this w) = None"
  shows "criticalNative_upto n slp this enterTime sleepTime w = Returned (snd (resolve this w))"
proof -
  from assms obtain w1 where "resolve this w = (None, w1)"
    by (metis prod.collapse)
  then show ?thesis by (simp add: criticalNative_upto_def)
qed

lemma upto_missing:
  assumes "fst (resolve this w) = Some fid" and "slots w this fid = None"
  shows "criticalNative_upto n slp this enterTime sleepTime w =
     Returned ((snd (resolve this w))
        \<lparr>trace := trace (snd (resolve this w)) @
           [SlotRead this fid None, Print ''Error: GetObjectField returned NULL\<newline>'']\<rparr>)"
proof -
  from assms obtain w1 where "resolve this w = (Some fid, w1)"
    by (metis prod.collapse)
  then show ?thesis
    using assms(2) resolve_keeps(1) [of this w]
    by (simp add: criticalNative_upto_def GetObjectField_def printf_def emit_def)
qed

lemma upto_armed:
  assumes "fst (resolve this w) = Some fid" and "slots w this fid = Some x"
  shows "criticalNative_upto n slp this enterTime sleepTime w =
     (if fst (unroll n slp x sleepTime (clock_ms w div 1000) (sint enterTime sdiv 1000) 0
                (at_loop_entry this fid (snd (resolve this w))))
           - clock_ms w div 1000 < sint enterTime sdiv 1000
      then Looping (snd (unroll n slp x sleepTime (clock_ms w div 1000) (sint enterTime sdiv 1000) 0
                (at_loop_entry this fid (snd (resolve this w)))))
      else Returned (SetObjectField this fid (Some x)
             (snd (unroll n slp x sleepTime (clock_ms w div 1000) (sint enterTime sdiv 1000) 0
                (at_loop_entry this fid (snd (resolve this w)))))))"
proof -
  from assms obtain w1 where "resolve this w = (Some fid, w1)"
    by (metis prod.collapse)
  then show ?thesis
    using assms(2) resolve_keeps(1,6) [of this w]
    by (simp add: criticalNative_upto_def at_loop_entry_def GetObjectField_def
        SetObjectField_def time_def emit_def case_prod_beta)
qed

lemma returns_iff_upto:
  "criticalNative slp this enterTime sleepTime w = Some w' \<longleftrightarrow>
   (\<exists>n. criticalNative_upto n slp this enterTime sleepTime w = Returned w')"
proof (cases "fst (resolve this w)")
  case None
  show ?thesis
    by (simp add: criticalNative_failed [OF None] upto_failed [OF None])
next
  case (Some fid)
  show ?thesis
  proof (cases "slots w this fid")
    case None
    show ?thesis
      by (simp add: criticalNative_missing [OF Some None] upto_missing [OF Some None])
  next
    case x: (Some x)
    let ?st = "clock_ms w div 1000" and ?thr = "sint enterTime sdiv 1000"
    let ?w3 = "at_loop_entry this fid (snd (resolve this w))"
    show ?thesis
    proof
      assume "criticalNative slp this enterTime sleepTime w = Some w'"
      then obtain r where r: "loop slp x sleepTime ?st ?thr 0 ?w3 = Some r"
        and w': "w' = SetObjectField this fid (Some x) (snd r)"
        unfolding criticalNative_armed [OF Some x] by auto
      from loop_Some_unroll [OF r] obtain n
        where n: "r = unroll n slp x sleepTime ?st ?thr 0 ?w3" by blast
      from loop_invariant [OF r, of "\<lambda>c v. True"] have "\<not> fst r - ?st < ?thr" by simp
      with n w' have "criticalNative_upto n slp this enterTime sleepTime w = Returned w'"
        by (simp add: upto_armed [OF Some x])
      then show "\<exists>n. criticalNative_upto n slp this enterTime sleepTime w = Returned w'" ..
    next
      assume "\<exists>n. criticalNative_upto n slp this enterTime sleepTime w = Returned w'"
      then obtain n where "criticalNative_upto n slp this enterTime sleepTime w = Returned w'" ..
      then have e: "\<not> fst (unroll n slp x sleepTime ?st ?thr 0 ?w3) - ?st < ?thr"
        and w': "w' = SetObjectField this fid (Some x) (snd (unroll n slp x sleepTime ?st ?thr 0 ?w3))"
        by (simp_all add: upto_armed [OF Some x] split: if_splits)
      from unroll_loop [OF e] w'
      show "criticalNative slp this enterTime sleepTime w = Some w'"
        by (simp add: criticalNative_armed [OF Some x])
    qed
  qed
qed

lemma hangs_iff_upto:
  "criticalNative slp this enterTime sleepTime w = None \<longleftrightarrow>
   (\<forall>n. \<exists>v. criticalNative_upto n slp this enterTime sleepTime w = Looping v)"
proof
  assume h: "criticalNative slp this enterTime sleepTime w = None"
  show "\<forall>n. \<exists>v. criticalNative_upto n slp this enterTime sleepTime w = Looping v"
  proof
    fix n
    show "\<exists>v. criticalNative_upto n slp this enterTime sleepTime w = Looping v"
    proof (cases "criticalNative_upto n slp this enterTime sleepTime w")
      case (Returned w')
      then have "criticalNative slp this enterTime sleepTime w = Some w'"
        using returns_iff_upto by blast
      with h show ?thesis by simp
    next
      case (Looping v)
      then show ?thesis by blast
    qed
  qed
next
  assume a: "\<forall>n. \<exists>v. criticalNative_upto n slp this enterTime sleepTime w = Looping v"
  show "criticalNative slp this enterTime sleepTime w = None"
  proof (cases "criticalNative slp this enterTime sleepTime w")
    case None
    then show ?thesis .
  next
    case (Some w')
    then obtain n where "criticalNative_upto n slp this enterTime sleepTime w = Returned w'"
      using returns_iff_upto by blast
    with a show ?thesis by (metis progress.distinct(1))
  qed
qed

subsection \<open>The values of the loop's variable\<close>

lemma unroll_readings:
  "\<exists>its. trace (snd (unroll n slp obj s st thr cur w)) = trace w @ concat (map (iteration obj s) its) \<and>
     fst (unroll n slp obj s st thr cur w) = last (cur # map snd its) \<and>
     (\<forall>t \<in> set (butlast (cur # map snd its)). t - st < thr)"
proof (induction n arbitrary: cur w)
  case 0
  have "trace (snd (unroll 0 slp obj s st thr cur w)) = trace w @ concat (map (iteration obj s) []) \<and>
     fst (unroll 0 slp obj s st thr cur w) = last (cur # map snd ([] :: (nat \<times> int) list)) \<and>
     (\<forall>t \<in> set (butlast (cur # map snd ([] :: (nat \<times> int) list))). t - st < thr)"
    by simp
  then show ?case by blast
next
  case (Suc n)
  show ?case
  proof (cases "cur - st < thr")
    case True
    let ?t = "fst (loop_body slp obj s w)" and ?w = "snd (loop_body slp obj s w)"
    let ?r = "unroll n slp obj s st thr ?t ?w"
    from Suc.IH [of ?t ?w] obtain its
      where its: "trace (snd ?r) = trace ?w @ concat (map (iteration obj s) its)"
        "fst ?r = last (?t # map snd its)"
        "\<forall>t \<in> set (butlast (?t # map snd its)). t - st < thr"
      by (elim exE conjE) (rule that, assumption+)
    have b: "trace ?w = trace w @ iteration obj s (handles w, ?t)"
      by (simp add: loop_body_eq)
    have u: "unroll (Suc n) slp obj s st thr cur w = ?r"
      using True by (simp add: case_prod_beta)
    have "trace (snd ?r) = trace w @ concat (map (iteration obj s) ((handles w, ?t) # its)) \<and>
      fst ?r = last (cur # map snd ((handles w, ?t) # its)) \<and>
      (\<forall>t \<in> set (butlast (cur # map snd ((handles w, ?t) # its))). t - st < thr)"
      using its True by (simp add: b)
    then show ?thesis unfolding u by blast
  next
    case False
    then have "trace (snd (unroll (Suc n) slp obj s st thr cur w)) =
        trace w @ concat (map (iteration obj s) []) \<and>
     fst (unroll (Suc n) slp obj s st thr cur w) = last (cur # map snd ([] :: (nat \<times> int) list)) \<and>
     (\<forall>t \<in> set (butlast (cur # map snd ([] :: (nat \<times> int) list))). t - st < thr)"
      by simp
    then show ?thesis by blast
  qed
qed

lemma clock_reads_append: "clock_reads (xs @ ys) = clock_reads xs @ clock_reads ys"
  by (induction xs rule: clock_reads.induct) simp_all

lemma clock_reads_lookups:
  "\<forall>e \<in> set es. is_ClassQuery e \<or> is_FieldQuery e \<or> is_Print e \<Longrightarrow> clock_reads es = []"
  by (induction es rule: clock_reads.induct) simp_all

lemma clock_reads_passes: "clock_reads (concat (map (iteration obj s) its)) = map snd its"
  by (induction its) (simp_all add: clock_reads_append, simp_all add: iteration_def)

lemma created_passes:
  "length (filter is_WeakCreate (concat (map (iteration obj s) its))) = length its \<and>
   length (filter is_WeakDestroy (concat (map (iteration obj s) its))) = length its"
  by (induction its) (simp_all add: iteration_def)

text \<open>The events of an armed call that returns, and of one that has not returned yet.\<close>

lemma armed_upto_shape:
  assumes res: "fst (resolve this w) = Some fid" and slot: "slots w this fid = Some x"
  shows "\<exists>es its.
      (\<forall>e \<in> set es. is_ClassQuery e \<or> is_FieldQuery e \<or> is_Print e) \<and>
      fst (unroll n slp x sleepTime (clock_ms w div 1000) (sint enterTime sdiv 1000) 0
             (at_loop_entry this fid (snd (resolve this w)))) = last (0 # map snd its) \<and>
      (\<forall>t \<in> set (butlast (0 # map snd its)). t - clock_ms w div 1000 < sint enterTime sdiv 1000) \<and>
      trace (snd (unroll n slp x sleepTime (clock_ms w div 1000) (sint enterTime sdiv 1000) 0
             (at_loop_entry this fid (snd (resolve this w))))) =
        trace w @ es @
        [SlotRead this fid (Some x), SlotWrite this fid None, ClockRead (clock_ms w div 1000)] @
        concat (map (iteration x sleepTime) its)"
proof -
  let ?st = "clock_ms w div 1000" and ?thr = "sint enterTime sdiv 1000"
  let ?w1 = "snd (resolve this w)"
  let ?w3 = "at_loop_entry this fid ?w1"
  let ?r = "unroll n slp x sleepTime ?st ?thr 0 ?w3"
  from resolve_trace [of this w] obtain es where es: "trace ?w1 = trace w @ es"
    "\<forall>e \<in> set es. is_ClassQuery e \<or> is_FieldQuery e \<or> is_Print e" by blast
  from unroll_readings [of n slp x sleepTime ?st ?thr 0 ?w3] obtain its
    where its: "trace (snd ?r) = trace ?w3 @ concat (map (iteration x sleepTime) its)"
      "fst ?r = last (0 # map snd its)"
      "\<forall>t \<in> set (butlast (0 # map snd its)). t - ?st < ?thr"
    by (elim exE conjE) (rule that, assumption+)
  have "trace ?w3 = trace w @ es @
        [SlotRead this fid (Some x), SlotWrite this fid None, ClockRead ?st]"
    by (simp add: at_loop_entry_eq es(1) resolve_keeps slot)
  then have "trace (snd ?r) = trace w @ es @
        [SlotRead this fid (Some x), SlotWrite this fid None, ClockRead ?st] @
        concat (map (iteration x sleepTime) its)"
    unfolding its(1) by simp
  with es(2) its(2,3) show ?thesis by blast
qed

lemma armed_run_shape:
  assumes res: "fst (resolve this w) = Some fid" and slot: "slots w this fid = Some x"
    and run: "criticalNative slp this enterTime sleepTime w = Some w'"
  shows "\<exists>es its r.
      loop slp x sleepTime (clock_ms w div 1000) (sint enterTime sdiv 1000) 0
        (at_loop_entry this fid (snd (resolve this w))) = Some r \<and>
      (\<forall>e \<in> set es. is_ClassQuery e \<or> is_FieldQuery e \<or> is_Print e) \<and>
      fst r = last (0 # map snd its) \<and>
      \<not> fst r - clock_ms w div 1000 < sint enterTime sdiv 1000 \<and>
      (\<forall>t \<in> set (butlast (0 # map snd its)). t - clock_ms w div 1000 < sint enterTime sdiv 1000) \<and>
      new_events w w' =
        es @ [SlotRead this fid (Some x), SlotWrite this fid None, ClockRead (clock_ms w div 1000)] @
        concat (map (iteration x sleepTime) its) @ [SlotWrite this fid (Some x)]"
proof -
  let ?st = "clock_ms w div 1000" and ?thr = "sint enterTime sdiv 1000"
  let ?w3 = "at_loop_entry this fid (snd (resolve this w))"
  from run obtain r where r: "loop slp x sleepTime ?st ?thr 0 ?w3 = Some r"
    and w': "w' = SetObjectField this fid (Some x) (snd r)"
    unfolding criticalNative_armed [OF res slot] by auto
  from loop_Some_unroll [OF r] obtain n
    where n: "r = unroll n slp x sleepTime ?st ?thr 0 ?w3" by blast
  from loop_invariant [OF r, of "\<lambda>c v. True"] have e: "\<not> fst r - ?st < ?thr" by simp
  from armed_upto_shape [OF res slot, of n slp sleepTime enterTime] obtain es its
    where s: "\<forall>e \<in> set es. is_ClassQuery e \<or> is_FieldQuery e \<or> is_Print e"
      "fst r = last (0 # map snd its)"
      "\<forall>t \<in> set (butlast (0 # map snd its)). t - ?st < ?thr"
      "trace (snd r) = trace w @ es @
        [SlotRead this fid (Some x), SlotWrite this fid None, ClockRead ?st] @
        concat (map (iteration x sleepTime) its)"
    unfolding n [symmetric] by (elim exE conjE) (rule that, assumption+)
  have "trace w' = trace w @ (es @
        [SlotRead this fid (Some x), SlotWrite this fid None, ClockRead ?st] @
        concat (map (iteration x sleepTime) its) @ [SlotWrite this fid (Some x)])"
    by (simp add: w' SetObjectField_def emit_def s(4))
  from new_events_append [OF this] r s(1,2,3) e show ?thesis by blast
qed

lemma armed_run_readings:
  assumes res: "fst (resolve this w) = Some fid" and slot: "slots w this fid = Some x"
    and run: "criticalNative slp this enterTime sleepTime w = Some w'"
  shows "\<exists>r. loop slp x sleepTime (clock_ms w div 1000) (sint enterTime sdiv 1000) 0
             (at_loop_entry this fid (snd (resolve this w))) = Some r \<and>
           exit_reading (new_events w w') = fst r" (is "\<exists>r. ?L r \<and> _")
    and "start_reading (new_events w w') = clock_ms w div 1000"
    and "\<not> exit_reading (new_events w w') - start_reading (new_events w w')
            < sint enterTime sdiv 1000"
    and "\<forall>t \<in> set (passed_readings (new_events w w')).
            t - start_reading (new_events w w') < sint enterTime sdiv 1000"
    and "created w w' = length (passed_readings (new_events w w'))"
    and "destroyed w w' = length (passed_readings (new_events w w'))"
proof -
  let ?st = "clock_ms w div 1000" and ?thr = "sint enterTime sdiv 1000"
  from armed_run_shape [OF assms] obtain es its r
    where s: "?L r"
      "\<forall>e \<in> set es. is_ClassQuery e \<or> is_FieldQuery e \<or> is_Print e"
      "fst r = last (0 # map snd its)"
      "\<not> fst r - ?st < ?thr"
      "\<forall>t \<in> set (butlast (0 # map snd its)). t - ?st < ?thr"
      "new_events w w' =
        es @ [SlotRead this fid (Some x), SlotWrite this fid None, ClockRead ?st] @
        concat (map (iteration x sleepTime) its) @ [SlotWrite this fid (Some x)]"
    by (elim exE conjE) (rule that, assumption+)
  have c: "clock_reads (new_events w w') = ?st # map snd its"
    by (simp add: s(6) clock_reads_append clock_reads_lookups [OF s(2)] clock_reads_passes)
  have w: "filter is_WeakCreate es = []" "filter is_WeakDestroy es = []"
    using lookups_not_weak [OF s(2)] by simp_all
  show "\<exists>r. ?L r \<and> exit_reading (new_events w w') = fst r"
    using s(1,3) by (auto simp add: exit_reading_def c)
  show "start_reading (new_events w w') = ?st" by (simp add: start_reading_def c)
  show "\<not> exit_reading (new_events w w') - start_reading (new_events w w') < ?thr"
    using s(3,4) by (simp add: exit_reading_def start_reading_def c)
  show "\<forall>t \<in> set (passed_readings (new_events w w')).
            t - start_reading (new_events w w') < ?thr"
    using s(5) by (simp add: passed_readings_def start_reading_def c)
  have p: "length (passed_readings (new_events w w')) = length its"
    by (simp add: passed_readings_def c)
  have "created w w' = length its" "destroyed w w' = length its"
    by (simp_all add: created_def destroyed_def s(6) w created_passes)
  with p show "created w w' = length (passed_readings (new_events w w'))"
    "destroyed w w' = length (passed_readings (new_events w w'))"
    by simp_all
qed

lemma unarmed_run:
  assumes "\<not> armed this w"
  shows "\<exists>w'. criticalNative slp this enterTime sleepTime w = Some w' \<and>
           created w w' = 0 \<and> destroyed w w' = 0"
proof (cases "fst (resolve this w)")
  case None
  from resolve_not_weak [of this w] obtain es where es: "trace (snd (resolve this w)) = trace w @ es"
    "filter is_WeakCreate es = []" "filter is_WeakDestroy es = []" by blast
  from new_events_append [OF es(1)] es(2,3)
  have "created w (snd (resolve this w)) = 0 \<and> destroyed w (snd (resolve this w)) = 0"
    by (simp add: created_def destroyed_def)
  with criticalNative_failed [OF None, of slp enterTime sleepTime] show ?thesis by simp
next
  case (Some fid)
  with assms have slot: "slots w this fid = None" by (auto simp add: armed_iff)
  let ?w1 = "snd (resolve this w)"
  let ?w' = "?w1\<lparr>trace := trace ?w1 @
              [SlotRead this fid None, Print ''Error: GetObjectField returned NULL\<newline>'']\<rparr>"
  from resolve_not_weak [of this w] obtain es where es: "trace ?w1 = trace w @ es"
    "filter is_WeakCreate es = []" "filter is_WeakDestroy es = []" by blast
  have "trace ?w' = trace w @ es @
          [SlotRead this fid None, Print ''Error: GetObjectField returned NULL\<newline>'']"
    by (simp add: es(1))
  from new_events_append [OF this] es(2,3)
  have "created w ?w' = 0 \<and> destroyed w ?w' = 0"
    by (simp add: created_def destroyed_def)
  with criticalNative_missing [OF Some slot, of slp enterTime sleepTime] show ?thesis by simp
qed

lemma first_pass_upto:
  assumes res: "fst (resolve this w) = Some fid" and slot: "slots w this fid = Some x"
    and enter: "0 - clock_ms w div 1000 < sint enterTime sdiv 1000"
  shows "1 \<le> created w (world_of (criticalNative_upto (Suc n) slp this enterTime sleepTime w)) \<and>
         1 \<le> destroyed w (world_of (criticalNative_upto (Suc n) slp this enterTime sleepTime w))"
proof -
  let ?st = "clock_ms w div 1000" and ?thr = "sint enterTime sdiv 1000"
  let ?w1 = "snd (resolve this w)"
  let ?w3 = "at_loop_entry this fid ?w1"
  let ?t = "fst (loop_body slp x sleepTime ?w3)" and ?w4 = "snd (loop_body slp x sleepTime ?w3)"
  let ?r = "unroll n slp x sleepTime ?st ?thr ?t ?w4"
  let ?p = "criticalNative_upto (Suc n) slp this enterTime sleepTime w"
  have u: "unroll (Suc n) slp x sleepTime ?st ?thr 0 ?w3 = ?r"
    using enter by (simp add: case_prod_beta)
  from unroll_trace [where n = n and obj = x and s = sleepTime and slp = slp and st = ?st
      and thr = ?thr and cur = ?t and w = ?w4]
  obtain its where its: "trace (snd ?r) = trace ?w4 @ concat (map (iteration x sleepTime) its)"
    by blast
  from resolve_not_weak [of this w] obtain es where es: "trace ?w1 = trace w @ es"
    "filter is_WeakCreate es = []" "filter is_WeakDestroy es = []" by blast
  have "trace ?w4 = trace ?w3 @ iteration x sleepTime (handles ?w3, ?t)"
    by (simp add: loop_body_eq)
  moreover have "trace ?w3 = trace w @ es @
        [SlotRead this fid (Some x), SlotWrite this fid None, ClockRead ?st]"
    by (simp add: at_loop_entry_eq es(1) resolve_keeps slot)
  ultimately have t: "trace (snd ?r) = trace w @ (es @
        [SlotRead this fid (Some x), SlotWrite this fid None, ClockRead ?st] @
        iteration x sleepTime (handles ?w3, ?t) @ concat (map (iteration x sleepTime) its))"
    unfolding its by simp
  have "?p = (if fst ?r - ?st < ?thr then Looping (snd ?r)
              else Returned (SetObjectField this fid (Some x) (snd ?r)))"
    by (simp only: upto_armed [OF res slot] u)
  then have "world_of ?p = snd ?r \<or> world_of ?p = SetObjectField this fid (Some x) (snd ?r)"
    by simp
  then show ?thesis
  proof
    assume "world_of ?p = snd ?r"
    with new_events_append [OF t] es(2,3) show ?thesis
      by (simp add: created_def destroyed_def iteration_def)
  next
    assume "world_of ?p = SetObjectField this fid (Some x) (snd ?r)"
    moreover have "trace (SetObjectField this fid (Some x) (snd ?r)) = trace w @ (es @
        [SlotRead this fid (Some x), SlotWrite this fid None, ClockRead ?st] @
        iteration x sleepTime (handles ?w3, ?t) @ concat (map (iteration x sleepTime) its) @
        [SlotWrite this fid (Some x)])"
      by (simp add: SetObjectField_def emit_def t)
    from new_events_append [OF this] have "new_events w (SetObjectField this fid (Some x) (snd ?r)) =
        es @ [SlotRead this fid (Some x), SlotWrite this fid None, ClockRead ?st] @
        iteration x sleepTime (handles ?w3, ?t) @ concat (map (iteration x sleepTime) its) @
        [SlotWrite this fid (Some x)]" .
    ultimately show ?thesis using es(2,3)
      by (simp add: created_def destroyed_def iteration_def)
  qed
qed

lemma demo_is_armed: "armed 11 demo"
  using demo_armed by (auto simp add: armed_iff)

section \<open>The claims about the locker\<close>

text \<open>
  C1. Whenever the field identifier is there (cached or found) and the field of the
  receiver holds an object \<open>x\<close>, a call that returns leaves \<open>x\<close> in that field, and so the
  whole heap as it was. The loop has ended with its test false, and the write that puts
  \<open>x\<close> back is the one event after the events of the loop: the last step of the call.
\<close>

theorem criticalNative_restores_slot:
  assumes "fst (resolve this w) = Some fid"
    and "slots w this fid = Some x"
    and "criticalNative slp this enterTime sleepTime w = Some w'"
  shows "slots w' this fid = Some x \<and> slots w' = slots w \<and>
         last (trace w') = SlotWrite this fid (Some x) \<and>
         (\<exists>r. loop slp x sleepTime (clock_ms w div 1000) (sint enterTime sdiv 1000) 0
                 (at_loop_entry this fid (snd (resolve this w))) = Some r \<and>
              \<not> fst r - clock_ms w div 1000 < sint enterTime sdiv 1000 \<and>
              trace w' = trace (snd r) @ [SlotWrite this fid (Some x)])"
proof -
  let ?w3 = "at_loop_entry this fid (snd (resolve this w))"
  from assms(3) obtain r
    where r: "loop slp x sleepTime (clock_ms w div 1000) (sint enterTime sdiv 1000) 0 ?w3 = Some r"
      and w': "w' = SetObjectField this fid (Some x) (snd r)"
    unfolding criticalNative_armed [OF assms(1,2)] by auto
  have "slots (snd r) = slots ?w3" by (rule loop_keeps(1) [OF r])
  then have "slots w' = (slots w)(this := (slots w this)(fid := Some x))"
    by (simp add: w' SetObjectField_def emit_def at_loop_entry_eq resolve_keeps)
  with assms(2) have s: "slots w' = slots w" by (simp add: fun_upd_idem)
  have t: "trace w' = trace (snd r) @ [SlotWrite this fid (Some x)]"
    by (simp add: w' SetObjectField_def emit_def)
  have e: "\<not> fst r - clock_ms w div 1000 < sint enterTime sdiv 1000"
    using loop_invariant [OF r, of "\<lambda>c v. True"] by simp
  from s t e r assms(2) show ?thesis by auto
qed

theorem criticalNative_restores_slot_witness:
  "fst (resolve 11 demo) = Some 100 \<and> slots demo 11 100 = Some 7 \<and>
   criticalNative exact 11 2000 500 demo = Some demo_done \<and>
   slots demo_done 11 100 = Some 7 \<and> slots demo_done = slots demo \<and>
   last (trace demo_done) = SlotWrite 11 100 (Some 7)"
proof -
  have h: "fst (resolve 11 demo) = Some 100" "slots demo 11 100 = Some 7"
    by (simp_all add: demo_resolve) (simp add: demo_def)
  from criticalNative_restores_slot [OF h demo_run] h demo_run show ?thesis by simp
qed

text \<open>
  C3. Whenever the field identifier is there and the field of the receiver is null, the
  call returns after reading the field and printing
  \<^verbatim>\<open>Error: GetObjectField returned NULL\<close>, which is how the routine reports a missing
  referent. It writes no field: the test of line 58 comes before the clearing write of
  line 62, which is never reached, so no event of the call is a write, the heap is as it
  was, the field is still null, and no weak reference has been made.
\<close>

theorem criticalNative_missing_referent:
  assumes "fst (resolve this w) = Some fid"
    and "slots w this fid = None"
  shows "\<exists>w'. criticalNative slp this enterTime sleepTime w = Some w' \<and>
           new_events (snd (resolve this w)) w' =
             [SlotRead this fid None, Print ''Error: GetObjectField returned NULL\<newline>''] \<and>
           (\<forall>e \<in> set (new_events w w'). \<not> is_SlotWrite e \<and> \<not> is_WeakCreate e) \<and>
           slots w' = slots w \<and> slots w' this fid = None \<and>
           weak_refs w' = weak_refs w \<and> handles w' = handles w"
proof -
  let ?w1 = "snd (resolve this w)"
  let ?w' = "?w1\<lparr>trace := trace ?w1 @
              [SlotRead this fid None, Print ''Error: GetObjectField returned NULL\<newline>'']\<rparr>"
  from resolve_trace [of this w] obtain es where es: "trace ?w1 = trace w @ es"
    "\<forall>e \<in> set es. is_ClassQuery e \<or> is_FieldQuery e \<or> is_Print e" by blast
  have "new_events w ?w' =
          es @ [SlotRead this fid None, Print ''Error: GetObjectField returned NULL\<newline>'']"
    by (rule new_events_append) (simp add: es)
  with es(2) have "\<forall>e \<in> set (new_events w ?w'). \<not> is_SlotWrite e \<and> \<not> is_WeakCreate e"
    by auto
  moreover have "new_events ?w1 ?w' =
          [SlotRead this fid None, Print ''Error: GetObjectField returned NULL\<newline>'']"
    by (rule new_events_append) simp
  ultimately show ?thesis
    using criticalNative_missing [OF assms, of slp enterTime sleepTime] assms(2)
    by (simp add: resolve_keeps)
qed

theorem criticalNative_missing_referent_witness:
  "fst (resolve 12 demo) = Some 100 \<and> slots demo 12 100 = None \<and>
   (\<exists>w'. criticalNative exact 12 2000 500 demo = Some w' \<and>
           new_events (snd (resolve 12 demo)) w' =
             [SlotRead 12 100 None, Print ''Error: GetObjectField returned NULL\<newline>''] \<and>
           (\<forall>e \<in> set (new_events demo w'). \<not> is_SlotWrite e \<and> \<not> is_WeakCreate e) \<and>
           slots w' = slots demo \<and> slots w' 12 100 = None \<and>
           weak_refs w' = weak_refs demo \<and> handles w' = handles demo)"
proof -
  have "resolve 12 demo = (Some 100, demo\<lparr>objFieldId := Some 100,
                     trace := [ClassQuery 12 (Some 10),
                               FieldQuery 10 ''obj'' ''Ljava/lang/Object;'' (Some 100)]\<rparr>)"
    using resolve_found [of demo 12 10 100] by (simp add: demo_def)
  then have h: "fst (resolve 12 demo) = Some 100" "slots demo 12 100 = None"
    by (simp_all add: demo_def)
  from criticalNative_missing_referent [OF h] h show ?thesis by blast
qed

text \<open>
  C4. Whenever nothing is cached and the lookup fails, because the receiver gives no class
  or because the class has no field \<^verbatim>\<open>obj\<close>, the call prints the message of the step
  that failed and returns. The world it leaves differs from the one it found by the
  trace only: the events are the lookups and the message, so the field of the receiver
  has not been read or written, no weak reference has been created, and nothing is
  cached.
\<close>

theorem criticalNative_resolution_failure:
  assumes "objFieldId w = None"
    and "class_of w this = None \<or>
         (\<exists>k. class_of w this = Some k \<and> field_id w k ''obj'' ''Ljava/lang/Object;'' = None)"
  shows "\<exists>w'. criticalNative slp this enterTime sleepTime w = Some w' \<and>
           w' = w\<lparr>trace := trace w @ new_events w w'\<rparr> \<and>
           new_events w w' =
             (case class_of w this of
                None \<Rightarrow> [ClassQuery this None, Print ''Error: GetObjectClass returned NULL\<newline>'']
              | Some k \<Rightarrow> [ClassQuery this (Some k),
                           FieldQuery k ''obj'' ''Ljava/lang/Object;'' None,
                           Print ''Error: GetFieldID returned NULL\<newline>'']) \<and>
           (\<forall>e \<in> set (new_events w w').
              \<not> is_SlotRead e \<and> \<not> is_SlotWrite e \<and> \<not> is_WeakCreate e) \<and>
           slots w' = slots w \<and> weak_refs w' = weak_refs w \<and> handles w' = handles w \<and>
           objFieldId w' = None"
proof -
  from assms(2) show ?thesis
  proof
    assume nc: "class_of w this = None"
    from resolve_no_class [OF assms(1) nc]
    have "fst (resolve this w) = None" by simp
    from criticalNative_failed [OF this, of slp enterTime sleepTime]
    show ?thesis
      by (simp add: resolve_no_class [OF assms(1) nc] new_events_def nc assms(1))
  next
    assume "\<exists>k. class_of w this = Some k \<and> field_id w k ''obj'' ''Ljava/lang/Object;'' = None"
    then obtain k where k: "class_of w this = Some k"
      "field_id w k ''obj'' ''Ljava/lang/Object;'' = None" by blast
    from resolve_no_field [OF assms(1) k]
    have "fst (resolve this w) = None" by simp
    from criticalNative_failed [OF this, of slp enterTime sleepTime]
    show ?thesis
      by (simp add: resolve_no_field [OF assms(1) k] new_events_def k assms(1))
  qed
qed

theorem criticalNative_resolution_failure_witness:
  "objFieldId demo = None \<and> class_of demo 13 = None \<and>
   (\<exists>w'. criticalNative exact 13 2000 500 demo = Some w' \<and>
      new_events demo w' = [ClassQuery 13 None, Print ''Error: GetObjectClass returned NULL\<newline>''] \<and>
      slots w' = slots demo \<and> weak_refs w' = weak_refs demo \<and> objFieldId w' = None)"
proof -
  have h: "objFieldId demo = None" "class_of demo 13 = None"
    by (simp_all add: demo_def)
  from h(2) have "class_of demo 13 = None \<or>
         (\<exists>k. class_of demo 13 = Some k \<and> field_id demo k ''obj'' ''Ljava/lang/Object;'' = None)"
    by simp
  from criticalNative_resolution_failure [OF h(1) this, of exact 2000 500] h
  show ?thesis by auto
qed

text \<open>
  C5. The events of the loop, after any number of passes of a run that is still going on
  and at the end of a run that has left the loop, are passes one after the other; each
  pass is: create a weak reference (with a handle of its own), sleep, destroy the
  reference with that handle, sleep, read the clock. After every prefix of these events at
  most one weak handle is alive: a pass destroys its reference before the next pass
  creates one.
\<close>

theorem loop_one_weak_reference_at_a_time:
  "(\<exists>its. length its \<le> n \<and> map fst its = [handles w..<handles w + length its] \<and>
      new_events w (snd (unroll n slp obj sleepTime start_time enterTime current_time w)) =
        concat (map (iteration obj sleepTime) its) \<and>
      (\<forall>k. length (alive_after (take k
          (new_events w (snd (unroll n slp obj sleepTime start_time enterTime current_time w)))))
        \<le> 1)) \<and>
   (\<forall>r. loop slp obj sleepTime start_time enterTime current_time w = Some r \<longrightarrow>
      (\<exists>its. map fst its = [handles w..<handles w + length its] \<and>
         new_events w (snd r) = concat (map (iteration obj sleepTime) its) \<and>
         (\<forall>k. length (alive_after (take k (new_events w (snd r)))) \<le> 1) \<and>
         alive_after (new_events w (snd r)) = []))"
proof -
  have u: "\<exists>its. length its \<le> m \<and> map fst its = [handles w..<handles w + length its] \<and>
      new_events w (snd (unroll m slp obj sleepTime start_time enterTime current_time w)) =
        concat (map (iteration obj sleepTime) its) \<and>
      (\<forall>k. length (alive_after (take k
          (new_events w (snd (unroll m slp obj sleepTime start_time enterTime current_time w)))))
        \<le> 1) \<and>
      alive_after (new_events w (snd (unroll m slp obj sleepTime start_time enterTime current_time w))) = []"
    for m
  proof -
    from unroll_passes [of m w slp obj sleepTime start_time enterTime current_time]
    obtain its where its: "length its \<le> m" "map fst its = [handles w..<handles w + length its]"
      "trace (snd (unroll m slp obj sleepTime start_time enterTime current_time w)) =
         trace w @ concat (map (iteration obj sleepTime) its)"
      by blast
    have e: "new_events w (snd (unroll m slp obj sleepTime start_time enterTime current_time w)) =
        concat (map (iteration obj sleepTime) its)"
      by (rule new_events_append) (rule its(3))
    have "alive_after (concat (map (iteration obj sleepTime) its)) = []"
      by (induction its) (simp_all add: alive_after_iteration, simp add: alive_after_def)
    moreover have "\<forall>k. length (alive_after (take k (concat (map (iteration obj sleepTime) its)))) \<le> 1"
      by (rule allI) (rule alive_after_passes)
    ultimately show ?thesis
      using its(1,2) e by (intro exI [of _ its]) simp
  qed
  have "\<exists>its. map fst its = [handles w..<handles w + length its] \<and>
         new_events w (snd r) = concat (map (iteration obj sleepTime) its) \<and>
         (\<forall>k. length (alive_after (take k (new_events w (snd r)))) \<le> 1) \<and>
         alive_after (new_events w (snd r)) = []"
    if "loop slp obj sleepTime start_time enterTime current_time w = Some r" for r
  proof -
    from loop_Some_unroll [OF that] obtain m
      where "r = unroll m slp obj sleepTime start_time enterTime current_time w" by blast
    with u [of m] show ?thesis by blast
  qed
  with u [of n] show ?thesis by blast
qed

theorem loop_one_weak_reference_at_a_time_witness:
  "\<exists>r. loop exact 7 500 5 2 0 demo = Some r \<and>
     new_events demo (snd r) = concat (map (iteration 7 500) [(0, 6), (1, 7)]) \<and>
     (\<forall>k. length (alive_after (take k (new_events demo (snd r)))) \<le> 1)"
proof -
  have "exact n 500 = 500" "- 1000 \<le> clock_ms demo" "clock_ms demo div 1000 = 5" for n
    by (simp_all add: demo_def exact_def)
  with two_passes [of exact demo 7] obtain r where r: "loop exact 7 500 5 2 0 demo = Some r"
    "trace (snd r) = trace demo @ iteration 7 500 (handles demo, 6) @ iteration 7 500 (Suc (handles demo), 7)"
    by simp
  from r(2) have "new_events demo (snd r) = concat (map (iteration 7 500) [(0, 6), (1, 7)])"
    by (simp add: new_events_def) (simp add: demo_def)
  with loop_one_weak_reference_at_a_time [of 0 demo exact 7 500 5 2 0] r(1)
  show ?thesis by auto
qed

text \<open>
  C6. Under a scheduler with which every sleep moves the clock forward (so that the clock
  never goes back), every call returns. In the events of an armed call the first clock
  reading is the start time; the loop has gone on with exactly those values of
  \<^verbatim>\<open>current_time\<close> for which \<^verbatim>\<open>current_time - start_time\<close> was below the budget
  \<^verbatim>\<open>enterTime / 1000\<close>, one pass and one weak reference for each, and was left with the
  first value for which it was not: at the exit \<^verbatim>\<open>current_time - start_time\<close> is at least
  the budget, and, when there was a pass, \<^verbatim>\<open>current_time\<close> is the clock's reading at the
  return. Nothing bounds that difference from above: for every bound there is such a
  scheduler with which a call that enters its loop leaves it with a larger difference.
\<close>

theorem loop_ends_by_elapsed_time:
  assumes "\<forall>n ms. 0 < slp n ms"
  shows "(\<exists>w'. criticalNative slp this enterTime sleepTime w = Some w' \<and>
            (armed this w \<longrightarrow>
               start_reading (new_events w w') = clock_ms w div 1000 \<and>
               sint enterTime sdiv 1000
                 \<le> exit_reading (new_events w w') - start_reading (new_events w w') \<and>
               (\<forall>t \<in> set (passed_readings (new_events w w')).
                  t - start_reading (new_events w w') < sint enterTime sdiv 1000) \<and>
               created w w' = length (passed_readings (new_events w w')) \<and>
               (0 - clock_ms w div 1000 < sint enterTime sdiv 1000 \<longrightarrow>
                  exit_reading (new_events w w') = clock_ms w' div 1000))) \<and>
         (\<forall>B. \<exists>slp'. (\<forall>n ms. 0 < slp' n ms) \<and>
            (\<exists>w'. criticalNative slp' this enterTime sleepTime w = Some w' \<and>
               (armed this w \<and> 0 - clock_ms w div 1000 < sint enterTime sdiv 1000 \<longrightarrow>
                  B < exit_reading (new_events w w') - start_reading (new_events w w'))))"
proof (intro conjI allI)
  let ?st = "clock_ms w div 1000" and ?thr = "sint enterTime sdiv 1000"
  from assms have adv: "\<And>n ms. 0 < slp n ms" by simp
  then have adv0: "\<And>n ms. 0 \<le> slp n ms" by (simp add: less_imp_le)
  from criticalNative_returns [of slp, OF adv] obtain w'
    where w': "criticalNative slp this enterTime sleepTime w = Some w'" by blast
  have "start_reading (new_events w w') = ?st \<and>
        ?thr \<le> exit_reading (new_events w w') - start_reading (new_events w w') \<and>
        (\<forall>t \<in> set (passed_readings (new_events w w')).
            t - start_reading (new_events w w') < ?thr) \<and>
        created w w' = length (passed_readings (new_events w w')) \<and>
        (0 - ?st < ?thr \<longrightarrow> exit_reading (new_events w w') = clock_ms w' div 1000)"
    if "armed this w"
  proof -
    from that obtain fid x where a: "fst (resolve this w) = Some fid" "slots w this fid = Some x"
      by (auto simp add: armed_iff)
    note f = armed_run_readings [OF a w']
    from f(1) obtain r
      where r: "loop slp x sleepTime ?st ?thr 0 (at_loop_entry this fid (snd (resolve this w))) = Some r"
        and e: "exit_reading (new_events w w') = fst r" by blast
    from w' r have "w' = SetObjectField this fid (Some x) (snd r)"
      by (simp add: criticalNative_armed [OF a])
    then have c: "clock_ms w' = clock_ms (snd r)"
      by (simp add: SetObjectField_def emit_def)
    have "exit_reading (new_events w w') = clock_ms w' div 1000" if "0 - ?st < ?thr"
      using loop_clock [of slp, OF adv0 r that] e c by simp
    with f(2,3,4,5) show ?thesis by simp
  qed
  with w' show "\<exists>w'. criticalNative slp this enterTime sleepTime w = Some w' \<and>
            (armed this w \<longrightarrow>
               start_reading (new_events w w') = ?st \<and>
               ?thr \<le> exit_reading (new_events w w') - start_reading (new_events w w') \<and>
               (\<forall>t \<in> set (passed_readings (new_events w w')).
                  t - start_reading (new_events w w') < ?thr) \<and>
               created w w' = length (passed_readings (new_events w w')) \<and>
               (0 - ?st < ?thr \<longrightarrow> exit_reading (new_events w w') = clock_ms w' div 1000))"
    by blast
next
  fix B
  let ?st = "clock_ms w div 1000" and ?thr = "sint enterTime sdiv 1000"
  let ?d = "max 1 (1000 * (B + ?st + 1) - clock_ms w)"
  let ?slp = "\<lambda>(n :: nat) (ms :: jlong). ?d"
  have pos: "0 < ?slp n ms" for n ms by simp
  have nonneg: "0 \<le> ?slp n ms" for n ms by simp
  from criticalNative_returns [of ?slp, OF pos] obtain w'
    where w': "criticalNative ?slp this enterTime sleepTime w = Some w'" by blast
  have "B < exit_reading (new_events w w') - start_reading (new_events w w')"
    if "armed this w \<and> 0 - ?st < ?thr"
  proof -
    from that obtain fid x where a: "fst (resolve this w) = Some fid" "slots w this fid = Some x"
      by (auto simp add: armed_iff)
    from that have enter: "0 - ?st < ?thr" by simp
    note f = armed_run_readings [OF a w']
    from f(1) obtain r
      where r: "loop ?slp x sleepTime ?st ?thr 0 (at_loop_entry this fid (snd (resolve this w))) = Some r"
        and e: "exit_reading (new_events w w') = fst r" by blast
    from loop_clock [of ?slp, OF nonneg r enter]
    have "fst r = clock_ms (snd r) div 1000" "clock_ms w + ?d + ?d \<le> clock_ms (snd r)"
      by (simp_all add: at_loop_entry_eq resolve_keeps)
    then have "1000 * (B + ?st + 1) \<le> clock_ms (snd r)" by linarith
    moreover have "\<And>x k :: int. 1000 * k \<le> x \<Longrightarrow> k \<le> x div 1000" by linarith
    ultimately have "B + ?st + 1 \<le> clock_ms (snd r) div 1000" by blast
    with \<open>fst r = clock_ms (snd r) div 1000\<close> e f(2) show ?thesis by simp
  qed
  with w' pos
  show "\<exists>slp'. (\<forall>n ms. 0 < slp' n ms) \<and>
            (\<exists>w'. criticalNative slp' this enterTime sleepTime w = Some w' \<and>
               (armed this w \<and> 0 - ?st < ?thr \<longrightarrow>
                  B < exit_reading (new_events w w') - start_reading (new_events w w')))"
    by (intro exI [of _ ?slp]) blast
qed

theorem loop_ends_by_elapsed_time_witness:
  "(\<forall>n ms. 0 < one_second n ms) \<and> armed 11 demo \<and>
   0 - clock_ms demo div 1000 < sint (2000 :: jlong) sdiv 1000 \<and>
   (\<exists>w'. criticalNative one_second 11 2000 500 demo = Some w' \<and>
      start_reading (new_events demo w') = 5 \<and>
      sint (2000 :: jlong) sdiv 1000
        \<le> exit_reading (new_events demo w') - start_reading (new_events demo w') \<and>
      exit_reading (new_events demo w') = clock_ms w' div 1000)"
proof -
  have h: "\<forall>n ms. 0 < one_second n ms" by (simp add: one_second_def)
  have c: "clock_ms demo div 1000 = 5" "0 - clock_ms demo div 1000 < sint (2000 :: jlong) sdiv 1000"
    by (simp_all add: demo_def)
  from loop_ends_by_elapsed_time [OF h, of 11 2000 500 demo, THEN conjunct1]
    demo_is_armed h c
  show ?thesis by auto
qed

text \<open>
  C2. The budget is \<^verbatim>\<open>enterTime / 1000\<close>, truncated; the loop goes on while
  \<^verbatim>\<open>current_time - start_time\<close> is below it, and \<^verbatim>\<open>current_time\<close> is the clock's reading at
  the end of each pass. At the first test, though, \<^verbatim>\<open>current_time\<close> is 0 (line 65). So,
  with a budget of 0, a call returns without a pass and without a weak reference exactly
  when it is not armed or the clock shows less than one second at the start. An armed call
  that starts at one second or later makes its first pass, whether it returns or not: the
  weak reference is there as soon as the loop has had the time for one pass. With a
  scheduler whose sleeps do not set the clock back such a call returns after exactly one
  pass.
\<close>

theorem zero_budget_passes:
  "(fst (resolve this w) = Some fid \<and> slots w this fid = Some x \<longrightarrow>
      criticalNative slp this enterTime sleepTime w =
        map_option (\<lambda>r. SetObjectField this fid (Some x) (snd r))
          (loop slp x sleepTime (clock_ms w div 1000) (sint enterTime sdiv 1000) 0
             (at_loop_entry this fid (snd (resolve this w))))) \<and>
   loop slp x sleepTime start_time budget current_time v =
     (if current_time - start_time < budget
      then loop slp x sleepTime start_time budget
             (fst (loop_body slp x sleepTime v)) (snd (loop_body slp x sleepTime v))
      else Some (current_time, v)) \<and>
   fst (loop_body slp x sleepTime v) = clock_ms (snd (loop_body slp x sleepTime v)) div 1000 \<and>
   ((\<exists>w'. criticalNative slp this 0 sleepTime w = Some w' \<and> created w w' = 0)
      \<longleftrightarrow> \<not> armed this w \<or> clock_ms w < 1000) \<and>
   (armed this w \<and> 1000 \<le> clock_ms w \<longrightarrow>
      (\<forall>n. 1 \<le> created w (world_of (criticalNative_upto (Suc n) slp this 0 sleepTime w)))) \<and>
   (armed this w \<and> 1000 \<le> clock_ms w \<and> (\<forall>n. 0 \<le> slp n sleepTime) \<longrightarrow>
      (\<exists>w'. criticalNative slp this 0 sleepTime w = Some w' \<and>
            created w w' = 1 \<and> destroyed w w' = 1)) \<and>
   (criticalNative slp this 0 sleepTime w = Some u \<longleftrightarrow>
      (\<exists>n. criticalNative_upto n slp this 0 sleepTime w = Returned u))"
proof (intro conjI)
  show "fst (resolve this w) = Some fid \<and> slots w this fid = Some x \<longrightarrow>
      criticalNative slp this enterTime sleepTime w =
        map_option (\<lambda>r. SetObjectField this fid (Some x) (snd r))
          (loop slp x sleepTime (clock_ms w div 1000) (sint enterTime sdiv 1000) 0
             (at_loop_entry this fid (snd (resolve this w))))"
    using criticalNative_armed by blast
  show "loop slp x sleepTime start_time budget current_time v =
           (if current_time - start_time < budget
            then loop slp x sleepTime start_time budget
                   (fst (loop_body slp x sleepTime v)) (snd (loop_body slp x sleepTime v))
            else Some (current_time, v))"
    by (subst loop.simps) (simp add: case_prod_beta)
  show "fst (loop_body slp x sleepTime v) = clock_ms (snd (loop_body slp x sleepTime v)) div 1000"
    by (simp add: loop_body_eq)
  have b: "sint (0 :: jlong) sdiv 1000 = 0" by simp
  have c: "0 - clock_ms w div 1000 < 0 \<longleftrightarrow> 1000 \<le> clock_ms w" by linarith
  show "(\<exists>w'. criticalNative slp this 0 sleepTime w = Some w' \<and> created w w' = 0)
            \<longleftrightarrow> \<not> armed this w \<or> clock_ms w < 1000"
  proof
    assume "\<exists>w'. criticalNative slp this 0 sleepTime w = Some w' \<and> created w w' = 0"
    then obtain w' where w': "criticalNative slp this 0 sleepTime w = Some w'" "created w w' = 0"
      by blast
    show "\<not> armed this w \<or> clock_ms w < 1000"
    proof (rule ccontr)
      assume "\<not> (\<not> armed this w \<or> clock_ms w < 1000)"
      then obtain f y where a: "fst (resolve this w) = Some f" "slots w this f = Some y"
        and late: "\<not> clock_ms w < 1000"
        by (auto simp add: armed_iff)
      from late c have "0 - clock_ms w div 1000 < sint (0 :: jlong) sdiv 1000" by (simp add: b)
      from run_some_pass [OF a this w'(1)] w'(2) show False by simp
    qed
  next
    assume "\<not> armed this w \<or> clock_ms w < 1000"
    then show "\<exists>w'. criticalNative slp this 0 sleepTime w = Some w' \<and> created w w' = 0"
    proof (cases "armed this w")
      case False
      from unarmed_run [OF this, of slp 0 sleepTime] show ?thesis by blast
    next
      case True
      then obtain f y where a: "fst (resolve this w) = Some f" "slots w this f = Some y"
        by (auto simp add: armed_iff)
      assume "\<not> armed this w \<or> clock_ms w < 1000"
      with True c have "\<not> 0 - clock_ms w div 1000 < sint (0 :: jlong) sdiv 1000" by (simp add: b)
      from run_no_pass [OF a this] show ?thesis by blast
    qed
  qed
  show "armed this w \<and> 1000 \<le> clock_ms w \<longrightarrow>
      (\<forall>n. 1 \<le> created w (world_of (criticalNative_upto (Suc n) slp this 0 sleepTime w)))"
  proof (intro impI allI)
    fix n
    assume h: "armed this w \<and> 1000 \<le> clock_ms w"
    then obtain f y where a: "fst (resolve this w) = Some f" "slots w this f = Some y"
      by (auto simp add: armed_iff)
    from h c have "0 - clock_ms w div 1000 < sint (0 :: jlong) sdiv 1000" by (simp add: b)
    from first_pass_upto [OF a this]
    show "1 \<le> created w (world_of (criticalNative_upto (Suc n) slp this 0 sleepTime w))"
      by blast
  qed
  show "armed this w \<and> 1000 \<le> clock_ms w \<and> (\<forall>n. 0 \<le> slp n sleepTime) \<longrightarrow>
            (\<exists>w'. criticalNative slp this 0 sleepTime w = Some w' \<and>
                  created w w' = 1 \<and> destroyed w w' = 1)"
  proof
    assume h: "armed this w \<and> 1000 \<le> clock_ms w \<and> (\<forall>n. 0 \<le> slp n sleepTime)"
    then obtain f y where a: "fst (resolve this w) = Some f" "slots w this f = Some y"
      by (auto simp add: armed_iff)
    from h c have enter: "0 - clock_ms w div 1000 < sint (0 :: jlong) sdiv 1000" by (simp add: b)
    from h have "0 \<le> slp (sleeps w) sleepTime" "0 \<le> slp (Suc (sleeps w)) sleepTime" by simp_all
    then have "clock_ms w div 1000 \<le>
        (clock_ms w + slp (sleeps w) sleepTime + slp (Suc (sleeps w)) sleepTime) div 1000"
      by (intro zdiv_mono1) simp_all
    then have "\<not> (clock_ms w + slp (sleeps w) sleepTime + slp (Suc (sleeps w)) sleepTime) div 1000
                   - clock_ms w div 1000 < sint (0 :: jlong) sdiv 1000"
      by (simp add: b)
    from run_one_pass [where slp = slp and sleepTime = sleepTime, OF a enter this]
    show "\<exists>w'. criticalNative slp this 0 sleepTime w = Some w' \<and>
                  created w w' = 1 \<and> destroyed w w' = 1" .
  qed
  show "criticalNative slp this 0 sleepTime w = Some u \<longleftrightarrow>
      (\<exists>n. criticalNative_upto n slp this 0 sleepTime w = Returned u)"
    by (rule returns_iff_upto)
qed

theorem zero_budget_passes_witness:
  "armed 11 demo \<and> 1000 \<le> clock_ms demo \<and> (\<forall>n. 0 \<le> exact n 500) \<and>
   \<not> (\<exists>w'. criticalNative exact 11 0 500 demo = Some w' \<and> created demo w' = 0) \<and>
   1 \<le> created demo (world_of (criticalNative_upto (Suc 0) exact 11 0 500 demo)) \<and>
   (\<exists>w'. criticalNative exact 11 0 500 demo = Some w' \<and>
         created demo w' = 1 \<and> destroyed demo w' = 1)"
proof -
  have h: "1000 \<le> clock_ms demo" "\<forall>n. 0 \<le> exact n 500"
    by (simp_all add: exact_def demo_def)
  note t = zero_budget_passes [of 11 demo 0 0 exact 0 500 0 0 0 demo demo]
  from t [THEN conjunct2, THEN conjunct2, THEN conjunct2] h demo_is_armed
  show ?thesis by simp
qed

theorem zero_budget_passes_counterexample:
  "map_option (created demo) (criticalNative exact 11 0 500 demo) = Some 1"
proof -
  have "0 - clock_ms demo div 1000 < sint (0 :: jlong) sdiv 1000"
    "\<not> (clock_ms demo + exact (sleeps demo) 500 + exact (Suc (sleeps demo)) 500) div 1000
        - clock_ms demo div 1000 < sint (0 :: jlong) sdiv 1000"
    by (simp_all add: demo_def exact_def)
  from run_one_pass [where slp = exact and sleepTime = 500, OF demo_armed this] show ?thesis by auto
qed

text \<open>
  C7. With the field holding \<open>x\<close>, a budget of 2000 milliseconds, sleeps of 500
  milliseconds that take exactly 500 milliseconds each, and a clock that shows a time not
  before its epoch, the call returns after exactly two passes: a pass sleeps twice, so it
  takes one second, and the budget is two seconds. The events after the lookup are the
  read, the clearing write, the start time, two passes and the restoring write; two weak
  references are created and two destroyed, and the field holds \<open>x\<close> again.
\<close>

theorem two_seconds_in_half_second_sleeps:
  assumes "fst (resolve this w) = Some fid"
    and "slots w this fid = Some x"
    and "\<forall>n. slp n 500 = 500"
    and "0 \<le> clock_ms w"
  shows "\<exists>w'. criticalNative slp this 2000 500 w = Some w' \<and>
           new_events (snd (resolve this w)) w' =
             [SlotRead this fid (Some x), SlotWrite this fid None,
              ClockRead (clock_ms w div 1000)] @
             iteration x 500 (handles w, clock_ms w div 1000 + 1) @
             iteration x 500 (Suc (handles w), clock_ms w div 1000 + 2) @
             [SlotWrite this fid (Some x)] \<and>
           created w w' = 2 \<and> destroyed w w' = 2 \<and> slots w' this fid = Some x"
proof -
  let ?w1 = "snd (resolve this w)"
  let ?new = "[SlotRead this fid (Some x), SlotWrite this fid None,
              ClockRead (clock_ms w div 1000)] @
             iteration x 500 (handles w, clock_ms w div 1000 + 1) @
             iteration x 500 (Suc (handles w), clock_ms w div 1000 + 2) @
             [SlotWrite this fid (Some x)]"
  from assms(3,4) have "slp n 500 = 500" "- 1000 \<le> clock_ms w" for n by simp_all
  from run_2000_500 [where slp = slp, OF assms(1,2) this] obtain w'
    where run: "criticalNative slp this 2000 500 w = Some w'"
      and tr: "trace w' = trace ?w1 @ ?new" and sl: "slots w' = slots ?w1"
    by simp
  from resolve_not_weak [of this w] obtain es where es: "trace ?w1 = trace w @ es"
    "filter is_WeakCreate es = []" "filter is_WeakDestroy es = []" by blast
  from tr es(1) have "trace w' = trace w @ es @ ?new" by simp
  from new_events_append [OF this] es(2,3)
  have "created w w' = 2 \<and> destroyed w w' = 2"
    by (simp add: created_def destroyed_def iteration_def)
  moreover from sl assms(2) have "slots w' this fid = Some x" by (simp add: resolve_keeps)
  moreover note new_events_append [OF tr] run
  ultimately show ?thesis by blast
qed

theorem two_seconds_in_half_second_sleeps_witness:
  "fst (resolve 11 demo) = Some 100 \<and> slots demo 11 100 = Some 7 \<and>
   (\<forall>n. exact n 500 = 500) \<and> 0 \<le> clock_ms demo \<and>
   (\<exists>w'. criticalNative exact 11 2000 500 demo = Some w' \<and>
         created demo w' = 2 \<and> destroyed demo w' = 2 \<and> slots w' 11 100 = Some 7)"
proof -
  have h: "\<forall>n. exact n 500 = 500" "0 \<le> clock_ms demo"
    by (simp_all add: exact_def demo_def)
  from two_seconds_in_half_second_sleeps [where slp = exact, OF demo_armed h] demo_armed h
  show ?thesis by blast
qed

theorem four_passes_counterexample:
  "map_option (created demo) (criticalNative exact 11 2000 500 demo) = Some 2 \<and>
   map_option (destroyed demo) (criticalNative exact 11 2000 500 demo) = Some 2"
  by (simp add: demo_run created_def destroyed_def new_events_def demo_done_def)
     (simp add: demo_def)

text \<open>
  C9. In an armed call the first test of the loop compares \<^verbatim>\<open>0 - start_time\<close> with the
  budget \<^verbatim>\<open>enterTime / 1000\<close>, because \<^verbatim>\<open>current_time\<close> is 0 then and not a reading of the
  clock. If it is smaller, the call makes its first pass, whether it returns or not: once
  the loop has had the time for one pass, one weak reference at least has been created
  and destroyed, and so it is when the call returns. That is the case of every
  \<^verbatim>\<open>enterTime\<close> above -1000, zero included, as soon as the clock shows one second or more.
  If it is not smaller, the call returns without a pass. A call returns exactly when,
  after some number of passes, it has left its loop; it never returns exactly when it is
  still in its loop after any number of passes.
\<close>

theorem first_test_decides_passes:
  assumes "armed this w"
  shows "(0 - clock_ms w div 1000 < sint enterTime sdiv 1000 \<longrightarrow>
            (\<forall>n. 1 \<le> created w (world_of (criticalNative_upto (Suc n) slp this enterTime sleepTime w)) \<and>
                 1 \<le> destroyed w (world_of (criticalNative_upto (Suc n) slp this enterTime sleepTime w))) \<and>
            (\<forall>w'. criticalNative slp this enterTime sleepTime w = Some w' \<longrightarrow>
                  1 \<le> created w w' \<and> 1 \<le> destroyed w w')) \<and>
         (\<not> 0 - clock_ms w div 1000 < sint enterTime sdiv 1000 \<longrightarrow>
            (\<exists>w'. criticalNative slp this enterTime sleepTime w = Some w' \<and>
                  created w w' = 0 \<and> destroyed w w' = 0)) \<and>
         (1000 \<le> clock_ms w \<and> - 1000 < sint enterTime \<longrightarrow>
            0 - clock_ms w div 1000 < sint enterTime sdiv 1000) \<and>
         (criticalNative slp this enterTime sleepTime w = Some u \<longleftrightarrow>
            (\<exists>n. criticalNative_upto n slp this enterTime sleepTime w = Returned u)) \<and>
         (criticalNative slp this enterTime sleepTime w = None \<longleftrightarrow>
            (\<forall>n. \<exists>v. criticalNative_upto n slp this enterTime sleepTime w = Looping v))"
proof -
  from assms obtain fid x where a: "fst (resolve this w) = Some fid" "slots w this fid = Some x"
    by (auto simp add: armed_iff)
  show ?thesis
  proof (intro conjI impI allI)
    fix n
    assume "0 - clock_ms w div 1000 < sint enterTime sdiv 1000"
    from first_pass_upto [OF a this]
    show "1 \<le> created w (world_of (criticalNative_upto (Suc n) slp this enterTime sleepTime w))"
      "1 \<le> destroyed w (world_of (criticalNative_upto (Suc n) slp this enterTime sleepTime w))"
      by blast+
  next
    fix w'
    assume "0 - clock_ms w div 1000 < sint enterTime sdiv 1000"
      and "criticalNative slp this enterTime sleepTime w = Some w'"
    from run_some_pass [OF a this] show "1 \<le> created w w'" "1 \<le> destroyed w w'"
      by simp_all
  next
    assume "\<not> 0 - clock_ms w div 1000 < sint enterTime sdiv 1000"
    from run_no_pass [OF a this]
    show "\<exists>w'. criticalNative slp this enterTime sleepTime w = Some w' \<and>
                  created w w' = 0 \<and> destroyed w w' = 0" .
  next
    assume h: "1000 \<le> clock_ms w \<and> - 1000 < sint enterTime"
    then have "0 \<le> sint enterTime sdiv 1000" by (simp add: sdiv_1000_nonneg)
    moreover from h have "1 \<le> clock_ms w div 1000" by linarith
    ultimately show "0 - clock_ms w div 1000 < sint enterTime sdiv 1000" by linarith
  next
    show "criticalNative slp this enterTime sleepTime w = Some u \<longleftrightarrow>
            (\<exists>n. criticalNative_upto n slp this enterTime sleepTime w = Returned u)"
      by (rule returns_iff_upto)
    show "criticalNative slp this enterTime sleepTime w = None \<longleftrightarrow>
            (\<forall>n. \<exists>v. criticalNative_upto n slp this enterTime sleepTime w = Looping v)"
      by (rule hangs_iff_upto)
  qed
qed

theorem first_test_decides_passes_witness:
  "armed 11 demo \<and>
   1000 \<le> clock_ms demo \<and> - 1000 < sint (0 :: jlong) \<and>
   0 - clock_ms demo div 1000 < sint (0 :: jlong) sdiv 1000 \<and>
   1 \<le> created demo (world_of (criticalNative_upto (Suc 0) exact 11 0 500 demo)) \<and>
   1 \<le> destroyed demo (world_of (criticalNative_upto (Suc 0) exact 11 0 500 demo)) \<and>
   (\<exists>w'. criticalNative exact 11 0 500 demo = Some w' \<and>
         1 \<le> created demo w' \<and> 1 \<le> destroyed demo w') \<and>
   \<not> 0 - clock_ms demo div 1000 < sint (- 6000 :: jlong) sdiv 1000 \<and>
   (\<exists>w'. criticalNative exact 11 (- 6000) 500 demo = Some w' \<and>
         created demo w' = 0 \<and> destroyed demo w' = 0)"
proof -
  have h: "1000 \<le> clock_ms demo \<and> - 1000 < sint (0 :: jlong)"
    "\<not> 0 - clock_ms demo div 1000 < sint (- 6000 :: jlong) sdiv 1000"
    by (simp_all add: demo_def)
  have "0 - clock_ms demo div 1000 < sint (0 :: jlong) sdiv 1000"
    "\<not> (clock_ms demo + exact (sleeps demo) 500 + exact (Suc (sleeps demo)) 500) div 1000
        - clock_ms demo div 1000 < sint (0 :: jlong) sdiv 1000"
    by (simp_all add: demo_def exact_def)
  from run_one_pass [where slp = exact and sleepTime = 500, OF demo_armed this] obtain w'
    where r: "criticalNative exact 11 0 500 demo = Some w'" by blast
  from first_test_decides_passes [OF demo_is_armed, of 0 exact 500]
    first_test_decides_passes [OF demo_is_armed, of "- 6000" exact 500] h demo_is_armed r
  show ?thesis by blast
qed

theorem always_one_pass_counterexample:
  "map_option (created demo) (criticalNative exact 11 (- 6000) 500 demo) = Some 0"
proof -
  have "\<not> 0 - clock_ms demo div 1000 < sint (- 6000 :: jlong) sdiv 1000"
    by (simp add: demo_def)
  from run_no_pass [OF demo_armed this, of exact 500] show ?thesis by auto
qed

text \<open>
  C8. Along any sequence of calls that return, one after the other in a process: once
  \<^verbatim>\<open>objFieldId\<close> is not null it keeps its value, and the calls make no lookup at all
  (neither \<^verbatim>\<open>GetObjectClass\<close> nor \<^verbatim>\<open>GetFieldID\<close>); and from a state in which it is null, no
  lookup follows a lookup that has given an identifier, at most one lookup gives an
  identifier, and the variable is null at the end exactly when none has.
\<close>

theorem objFieldId_resolved_once:
  assumes "calls slp cs w = Some w'"
  shows "(objFieldId w \<noteq> None \<longrightarrow>
            objFieldId w' = objFieldId w \<and> lookups (new_events w w') = []) \<and>
         (objFieldId w = None \<longrightarrow>
            settled (new_events w w') \<and>
            length (filter resolved (new_events w w')) \<le> 1 \<and>
            (objFieldId w' = None \<longleftrightarrow> filter resolved (new_events w w') = []))"
proof -
  from calls_locator [OF assms] obtain new
    where new: "trace w' = trace w @ new"
      "objFieldId w \<noteq> None \<longrightarrow> objFieldId w' = objFieldId w \<and> lookups new = []"
      "objFieldId w = None \<longrightarrow> settled new \<and> length (filter resolved new) \<le> 1 \<and>
        (objFieldId w' = None \<longleftrightarrow> filter resolved new = [])"
    by (elim exE conjE) (rule that, assumption+)
  from new(2,3) show ?thesis
    unfolding new_events_append [OF new(1)] by (intro conjI)
qed

theorem objFieldId_resolved_once_witness:
  "calls exact [(11, 2000, 500)] demo = Some demo_done \<and>
   objFieldId demo = None \<and> objFieldId demo_done = Some 100 \<and>
   settled (new_events demo demo_done) \<and>
   length (filter resolved (new_events demo demo_done)) \<le> 1 \<and>
   filter resolved (new_events demo demo_done) \<noteq> [] \<and>
   (\<exists>w'. calls one_second [(12, 0, 0), (11, 3000, 0), (13, 0, 0)] demo_done = Some w' \<and>
         objFieldId w' = Some 100 \<and> lookups (new_events demo_done w') = [])"
proof -
  have a: "calls exact [(11, 2000, 500)] demo = Some demo_done"
    by (simp add: demo_run)
  have n: "objFieldId demo = None" "objFieldId demo_done = Some 100"
    by (simp_all add: demo_done_def) (simp add: demo_def)
  have "0 < one_second n ms" for n ms by (simp add: one_second_def)
  from calls_return [of one_second, OF this] obtain w'
    where b: "calls one_second [(12, 0, 0), (11, 3000, 0), (13, 0, 0)] demo_done = Some w'"
    by blast
  from objFieldId_resolved_once [OF a] objFieldId_resolved_once [OF b] a b n
  show ?thesis by auto
qed

section \<open>The claim about the timestamp\<close>

lemma sdiv_pos_mono:
  fixes a b c :: int
  assumes "0 < c" and "a \<le> b"
  shows "a sdiv c \<le> b sdiv c"
proof -
  have pos: "k sdiv c = k div c" if "0 \<le> k" for k
    using that assms(1) by (simp add: signed_divide_int_def sgn_if)
  have neg: "k sdiv c = - ((- k) div c)" if "k < 0" for k
    using that assms(1) by (simp add: signed_divide_int_def sgn_if)
  consider "0 \<le> a" | "a < 0" "0 \<le> b" | "b < 0" using assms(2) by linarith
  then show ?thesis
  proof cases
    case 1
    with assms show ?thesis by (simp add: pos zdiv_mono1)
  next
    case 2
    have "0 \<le> (- a) div c" "0 \<le> b div c"
      using 2 assms(1) by (simp_all add: pos_imp_zdiv_nonneg_iff)
    with 2 show ?thesis by (simp add: pos neg)
  next
    case 3
    with assms have "(- b) div c \<le> (- a) div c" by (intro zdiv_mono1) simp_all
    with 3 assms(2) show ?thesis by (simp add: neg)
  qed
qed

text \<open>
  C10. The timestamp is the reading of the steady clock converted to milliseconds and
  truncated towards zero. The C++ library promises that the readings of a steady clock
  never decrease; so, a tick being a positive fraction \<open>cn / cd\<close> of a millisecond, of two
  readings \<open>a \<le> b\<close> the later gives a timestamp that is at least the earlier one's.
\<close>

theorem getTimeStamp_monotone:
  assumes "0 < cn" and "0 < cd" and "a \<le> b"
  shows "getTimeStamp cn cd a \<le> getTimeStamp cn cd b \<and>
         getTimeStamp cn cd a =
           (if 0 \<le> a then (a * cn) div cd else - ((- a * cn) div cd))"
proof
  from assms(1,3) have "a * cn \<le> b * cn" by simp
  from sdiv_pos_mono [OF assms(2) this]
  show "getTimeStamp cn cd a \<le> getTimeStamp cn cd b" by (simp add: getTimeStamp_def)
  show "getTimeStamp cn cd a = (if 0 \<le> a then (a * cn) div cd else - ((- a * cn) div cd))"
  proof (cases "0 \<le> a")
    case True
    with assms(1) have "0 \<le> a * cn" by simp
    with assms(2) True show ?thesis
      by (simp add: getTimeStamp_def signed_divide_int_def sgn_if)
  next
    case False
    with assms(1) have "a * cn < 0" by (simp add: mult_neg_pos)
    with assms(2) False show ?thesis
      by (simp add: getTimeStamp_def signed_divide_int_def sgn_if)
  qed
qed

theorem getTimeStamp_monotone_witness:
  "(0 :: int) < 1 \<and> (0 :: int) < 1000000 \<and> (1999999 :: int) \<le> 2000000 \<and>
   getTimeStamp 1 1000000 1999999 \<le> getTimeStamp 1 1000000 2000000 \<and>
   getTimeStamp 1 1000000 1999999 = 1 \<and> getTimeStamp 1 1000000 2000000 = 2"
proof -
  have h: "(0 :: int) < 1" "(0 :: int) < 1000000" "(1999999 :: int) \<le> 2000000"
    "(0 :: int) \<le> 2000000" by simp_all
  from getTimeStamp_monotone [OF h(1,2,3)] getTimeStamp_monotone [OF h(1,2), of 2000000 2000000] h
  show ?thesis by simp
qed

end
